theory Spec2Isabelle
  imports Main "HOL-Library.AList" "HOL-Library.Multiset"
begin

section \<open>roachprod \<open>vm\<close> package: data model\<close>

text \<open>
  A shallow embedding of \<^verbatim>\<open>pkg/cmd/roachprod/vm/vm.go\<close>. Go strings are byte
  sequences and become \<open>string\<close>; a Go \<open>error\<close> that is \<open>nil\<close> becomes \<open>None\<close>.
  The two constructors of \<open>error\<close> are the two ways the package builds errors with
  \<^verbatim>\<open>github.com/pkg/errors\<close>: \<^verbatim>\<open>errors.Errorf\<close>/\<^verbatim>\<open>errors.New\<close> (a message) and
  \<^verbatim>\<open>errors.Wrapf\<close> (a cause with a context message). Errors coming out of a backend are
  values of the same type.
\<close>

datatype error = Errorf string | Wrapf error string

text \<open>The error values for \<open>VM.Errors\<close>.\<close>

definition ErrBadNetwork :: error where
  "ErrBadNetwork = Errorf ''could not determine network information''"

definition ErrInvalidName :: error where
  "ErrInvalidName = Errorf ''invalid VM name''"

definition ErrNoExpiration :: error where
  "ErrNoExpiration = Errorf ''could not determine expiration''"

text \<open>
  The struct \<open>VM\<close>, field by field. \<open>CreatedAt\<close> (a \<open>time.Time\<close>) and \<open>Lifetime\<close>
  (a \<open>time.Duration\<close>) are carried as integers; no function below computes with them.
\<close>

record VM =
  Name :: string
  CreatedAt :: int
  Errors :: "error list"
  Lifetime :: int
  DNS :: string
  Provider :: string
  ProviderID :: string
  PrivateIP :: string
  PublicIP :: string
  RemoteUser :: string
  VPC :: string
  MachineType :: string
  Zone :: string

type_synonym List = "VM list"

subsection \<open>\<open>Name\<close>: the name of the i'th node of a cluster\<close>

text \<open>
  \<^verbatim>\<open>fmt.Sprintf("%s-%0.4d", cluster, idx)\<close>. The verb \<open>%0.4d\<close> carries the flag \<open>0\<close>, no
  width and the precision 4. The standard library formats the integer in \<open>fmtInteger\<close>:
  the magnitude is written right to left, one digit per round of the loop
  \<^verbatim>\<open>for u >= 10 { i--; next := u / 10; buf[i] = byte('0' + u - next*10); u = next }\<close>,
  then the last digit, then zeros while fewer than \<open>prec\<close> digits have been written,
  then the sign. With a precision given the flag \<open>0\<close> is ignored, and without a width
  nothing is padded further. \<open>buf\<close> below is the part of the buffer already written.

  \<open>idx\<close> is a Go \<open>int\<close>; formatting does no arithmetic that could overflow (the
  magnitude of the least value is taken in \<open>uint64\<close>), so the index is an \<open>int\<close> here and
  the machine values are among them.
\<close>

definition digit :: "nat \<Rightarrow> char" where
  "digit d = ''0123456789'' ! d"

function fmt_digits :: "nat \<Rightarrow> string \<Rightarrow> string" where
  "fmt_digits u buf =
     (if u \<ge> 10 then fmt_digits (u div 10) (digit (u - (u div 10) * 10) # buf)
      else digit u # buf)"
  by pat_completeness auto
termination
  by (relation "measure (\<lambda>(u, buf). u)") auto

declare fmt_digits.simps [simp del]

function fmt_zeros :: "nat \<Rightarrow> string \<Rightarrow> string" where
  "fmt_zeros prec buf =
     (if prec > length buf then fmt_zeros prec (CHR ''0'' # buf) else buf)"
  by pat_completeness auto
termination
  by (relation "measure (\<lambda>(prec, buf). prec - length buf)") auto

declare fmt_zeros.simps [simp del]

definition fmtInteger :: "nat \<Rightarrow> int \<Rightarrow> string" where
  "fmtInteger prec a =
     (let negative = (a < 0);
          u = nat \<bar>a\<bar>;
          buf = fmt_zeros prec (fmt_digits u [])
      in if negative then CHR ''-'' # buf else buf)"

definition vm_Name :: "string \<Rightarrow> int \<Rightarrow> string" where
  "vm_Name cluster idx = cluster @ ''-'' @ fmtInteger 4 idx"

text \<open>
  What the specification says: the decimal representation, most significant digit
  first, padded on the left with zeros to at least four digits.
\<close>

fun decimal :: "nat \<Rightarrow> string" where
  "decimal n = (if n < 10 then [digit n] else decimal (n div 10) @ [digit (n mod 10)])"

declare decimal.simps [simp del]

definition pad_zeros :: "nat \<Rightarrow> string \<Rightarrow> string" where
  "pad_zeros k ds = replicate (k - length ds) CHR ''0'' @ ds"

definition padded_decimal :: "nat \<Rightarrow> int \<Rightarrow> string" where
  "padded_decimal k i = (if i < 0 then ''-'' else []) @ pad_zeros k (decimal (nat \<bar>i\<bar>))"

text \<open>The value a string of decimal digits denotes, to read a representation back.\<close>

definition digit_value :: "char \<Rightarrow> nat" where
  "digit_value c = of_char c - 48"

definition decimal_value :: "string \<Rightarrow> nat" where
  "decimal_value ds = foldl (\<lambda>acc c. 10 * acc + digit_value c) 0 ds"

subsection \<open>\<open>regionRE\<close>: the regular expression and its matcher\<close>

text \<open>
  \<^verbatim>\<open>var regionRE = regexp.MustCompile(`(.*[^-])-?[a-z]$`)\<close>. The expression is a
  sequence of five items over single-character classes, the first two inside the one
  capture group:
  \<^item> \<open>.*\<close>: any number of characters other than a line feed (the flag \<open>s\<close> is off), as
    many as possible;
  \<^item> \<open>[^-]\<close>: one character other than the hyphen (a negated class does match the line
    feed);
  \<^item> \<open>-?\<close>: a hyphen, preferably taken;
  \<^item> \<open>[a-z]\<close>: one lower-case letter;
  \<^item> \<open>$\<close>: the end of the text (the flag \<open>m\<close> is off).
  Go's \<open>regexp\<close> returns the match a backtracking matcher finds first (leftmost, then
  each repetition by its preference). \<open>rmatch\<close> is that matcher at a fixed start: it
  returns the number of characters each item consumed. The text is matched byte by
  byte: every class here separates at an ASCII character, and the bytes of a
  multi-byte character are all above the ASCII range, so the matches are the same as
  character by character.
\<close>

datatype cls = Dot | Lit char | NotLit char | Range char char

fun cls_match :: "cls \<Rightarrow> char \<Rightarrow> bool" where
  "cls_match Dot c = (c \<noteq> CHR 0x0A)"
| "cls_match (Lit a) c = (c = a)"
| "cls_match (NotLit a) c = (c \<noteq> a)"
| "cls_match (Range lo hi) c =
     ((of_char lo :: nat) \<le> of_char c \<and> (of_char c :: nat) \<le> of_char hi)"

datatype item = One cls | Star cls | Opt cls | EndText

function rmatch :: "item list \<Rightarrow> string \<Rightarrow> nat list option" where
  "rmatch [] s = Some []"
| "rmatch (One c # r) [] = None"
| "rmatch (One c # r) (x # xs) =
     (if cls_match c x then map_option (Cons 1) (rmatch r xs) else None)"
| "rmatch (Opt c # r) [] = map_option (Cons 0) (rmatch r [])"
| "rmatch (Opt c # r) (x # xs) =
     (case (if cls_match c x then map_option (Cons 1) (rmatch r xs) else None) of
        Some ks \<Rightarrow> Some ks
      | None \<Rightarrow> map_option (Cons 0) (rmatch r (x # xs)))"
| "rmatch (Star c # r) [] = map_option (Cons 0) (rmatch r [])"
| "rmatch (Star c # r) (x # xs) =
     (case (if cls_match c x
            then (case rmatch (Star c # r) xs of
                    Some (k # ks) \<Rightarrow> Some (Suc k # ks)
                  | _ \<Rightarrow> None)
            else None) of
        Some ks \<Rightarrow> Some ks
      | None \<Rightarrow> map_option (Cons 0) (rmatch r (x # xs)))"
| "rmatch (EndText # r) s = (if s = [] then map_option (Cons 0) (rmatch r s) else None)"
  by pat_completeness auto
termination
  by (relation "measures [\<lambda>(items, s). length s, \<lambda>(items, s). length items]") auto

text \<open>
  The leftmost start: the text itself, then its tails in turn. The result is the tail
  the match starts at, with what each item consumed there.
\<close>

fun find_leftmost :: "item list \<Rightarrow> string \<Rightarrow> (string \<times> nat list) option" where
  "find_leftmost items [] = map_option (Pair []) (rmatch items [])"
| "find_leftmost items (x # xs) =
     (case rmatch items (x # xs) of
        Some ks \<Rightarrow> Some (x # xs, ks)
      | None \<Rightarrow> find_leftmost items xs)"

definition regionRE :: "item list" where
  "regionRE = [Star Dot, One (NotLit CHR ''-''), Opt (Lit CHR ''-''),
               One (Range CHR ''a'' CHR ''z''), EndText]"

text \<open>
  \<open>regionRE.FindStringSubmatch\<close>: \<open>nil\<close> (the empty list) when nothing matches,
  otherwise the whole match followed by the text of the capture group, which spans
  the first two items.
\<close>

definition regionRE_FindStringSubmatch :: "string \<Rightarrow> string list" where
  "regionRE_FindStringSubmatch s =
     (case find_leftmost regionRE s of
        None \<Rightarrow> []
      | Some (t, ks) \<Rightarrow> [take (sum_list ks) t, take (ks ! 0 + ks ! 1) t])"

subsection \<open>\<open>IsLocal\<close> and \<open>Locality\<close>\<close>

text \<open>
  \<open>config.Local\<close> is declared in another package; it is the parameter \<open>local\<close>.
  \<open>log.Fatalf\<close> writes the message and exits the process: the caller gets nothing back.
  An outcome is therefore either a returned value or the exit, with the format and its
  argument.
\<close>

datatype 'a outcome = Return 'a | Fatalf string string

definition IsLocal :: "string \<Rightarrow> VM \<Rightarrow> bool" where
  "IsLocal local vm = (Zone vm = local)"

definition Locality :: "string \<Rightarrow> VM \<Rightarrow> string outcome" where
  "Locality local vm =
     (if IsLocal local vm then
        Return (''cloud='' @ Provider vm @ '',region='' @ Zone vm @ '',zone='' @ Zone vm)
      else
        (let match = regionRE_FindStringSubmatch (Zone vm) in
         if length match = 2 then
           Return (''cloud='' @ Provider vm @ '',region='' @ match ! 1 @ '',zone='' @ Zone vm)
         else Fatalf ''unable to parse region from zone %q'' (Zone vm)))"

text \<open>
  The zones \<open>regionRE\<close> matches, said without the matcher: the zone ends in a character
  other than the hyphen, then possibly one hyphen, then one lower-case letter.
\<close>

definition lower :: "char \<Rightarrow> bool" where
  "lower c = ((97::nat) \<le> of_char c \<and> (of_char c :: nat) \<le> 122)"

fun region_suffix :: "string \<Rightarrow> bool" where
  "region_suffix (c # x # rest) =
     (lower c \<and> (x \<noteq> CHR ''-'' \<or> (case rest of [] \<Rightarrow> False | y # _ \<Rightarrow> y \<noteq> CHR ''-'')))"
| "region_suffix _ = False"

definition zone_parsable :: "string \<Rightarrow> bool" where
  "zone_parsable z = region_suffix (rev z)"

text \<open>A VM with the three fields the examples need and the others empty.\<close>

definition mkVM :: "string \<Rightarrow> string \<Rightarrow> string \<Rightarrow> VM" where
  "mkVM name provider zone =
     \<lparr>Name = name, CreatedAt = 0, Errors = [], Lifetime = 0, DNS = [], Provider = provider,
      ProviderID = [], PrivateIP = [], PublicIP = [], RemoteUser = [], VPC = [],
      MachineType = [], Zone = zone\<rparr>"

subsection \<open>Providers and the registry\<close>

text \<open>
  \<open>Provider\<close> is an interface. The functions of this file call two of its methods,
  \<open>Name()\<close> and \<open>FindActiveAccount()\<close>; a provider is the record of what the two return
  (the second a Go pair of the account and the error). The dispatch functions below
  do not look inside a provider and are stated for any type \<open>'p\<close> of providers.

  A Go map is an association list with distinct keys: \<open>m[k]\<close> is \<open>map_of m k\<close>,
  \<open>m[k] = v\<close> is \<open>AList.update k v m\<close>, and \<open>range m\<close> visits the entries in the order of the
  list. Go leaves the order of \<open>range\<close> open: a registry is given with its entries in
  the order in which they are visited, and every theorem holds for every such order.
\<close>

record Provider =
  Provider_Name :: string
  FindActiveAccount :: "string \<times> error option"

definition AllProviderNames :: "(string \<times> 'p) list \<Rightarrow> string list" where
  "AllProviderNames providers = fold (\<lambda>(name, p) ret. ret @ [name]) providers []"

text \<open>
  An action has effects (the one of \<open>FindActiveAccounts\<close> writes to a map): it takes the
  state, of any type \<open>'s\<close>, and returns its error with the state it leaves.
\<close>

definition ForProvider ::
    "(string \<times> 'p) list \<Rightarrow> string \<Rightarrow> ('p \<Rightarrow> 's \<Rightarrow> error option \<times> 's) \<Rightarrow> 's \<Rightarrow> error option \<times> 's" where
  "ForProvider providers named action s =
     (case map_of providers named of
        None \<Rightarrow> (Some (Errorf (''unknown vm provider: '' @ named)), s)
      | Some p \<Rightarrow>
          (case action p s of
             (Some err, s') \<Rightarrow> (Some (Wrapf err (''in provider: '' @ named)), s')
           | (None, s') \<Rightarrow> (None, s')))"

fun ProvidersSequential ::
    "(string \<times> 'p) list \<Rightarrow> string list \<Rightarrow> ('p \<Rightarrow> 's \<Rightarrow> error option \<times> 's) \<Rightarrow> 's \<Rightarrow> error option \<times> 's" where
  "ProvidersSequential providers [] action s = (None, s)"
| "ProvidersSequential providers (name # named) action s =
     (case ForProvider providers name action s of
        (Some err, s') \<Rightarrow> (Some err, s')
      | (None, s') \<Rightarrow> ProvidersSequential providers named action s')"

subsection \<open>\<open>errgroup.Group\<close>\<close>

text \<open>
  \<^verbatim>\<open>golang.org/x/sync/errgroup\<close> is a library. \<open>g.Go(f)\<close> starts \<open>f\<close> in a goroutine of its
  own; when \<open>f\<close> returns an error and no error was kept before, the group keeps it;
  \<open>g.Wait()\<close> blocks until every function started has returned, then returns the error
  kept. No function is cancelled when another fails (the zero \<open>Group\<close> has no context).

  The goroutines are interleaved at the grain of a whole call: \<open>sched\<close> lists the
  functions started, by their position, in the order in which they return, and the
  state goes from one to the next in that order. A schedule of \<open>n\<close> goroutines names
  each of them once. \<open>run_tasks\<close> carries the error kept so far.
\<close>

type_synonym 's task = "'s \<Rightarrow> error option \<times> 's"

record 's Group =
  tasks :: "'s task list"

definition Group_zero :: "'s Group" where
  "Group_zero = \<lparr>tasks = []\<rparr>"

definition Group_Go :: "'s Group \<Rightarrow> 's task \<Rightarrow> 's Group" where
  "Group_Go g f = g\<lparr>tasks := tasks g @ [f]\<rparr>"

fun run_tasks :: "'s task list \<Rightarrow> error option \<Rightarrow> 's \<Rightarrow> error option \<times> 's" where
  "run_tasks [] err s = (err, s)"
| "run_tasks (f # fs) err s =
     (case f s of
        (e, s') \<Rightarrow> run_tasks fs (case err of None \<Rightarrow> e | Some kept \<Rightarrow> Some kept) s')"

definition Group_Wait :: "'s Group \<Rightarrow> nat list \<Rightarrow> 's \<Rightarrow> error option \<times> 's" where
  "Group_Wait g sched s = run_tasks (map (\<lambda>i. tasks g ! i) sched) None s"

definition schedule :: "nat \<Rightarrow> nat list \<Rightarrow> bool" where
  "schedule n sched = (distinct sched \<and> set sched = {0..<n})"

definition ProvidersParallel ::
    "(string \<times> 'p) list \<Rightarrow> string list \<Rightarrow> ('p \<Rightarrow> 's \<Rightarrow> error option \<times> 's) \<Rightarrow> nat list \<Rightarrow> 's
     \<Rightarrow> error option \<times> 's" where
  "ProvidersParallel providers named action sched s =
     (let g = fold (\<lambda>name g. Group_Go g (ForProvider providers name action)) named Group_zero
      in Group_Wait g sched s)"

subsection \<open>\<open>FanOut\<close>\<close>

text \<open>
  The first loop collates the VMs by provider: \<^verbatim>\<open>m[vm.Provider] = append(m[vm.Provider], vm)\<close>,
  where reading an absent key gives the \<open>nil\<close> slice. The second starts one goroutine
  for each entry of \<open>m\<close>; \<open>FanOut_task\<close> is its body. The entries are started in the order
  of the list and return in the order \<open>sched\<close>: as \<open>sched\<close> is any schedule, the order in
  which \<open>range m\<close> starts them makes no difference to what can happen.
\<close>

definition collate :: "List \<Rightarrow> (string \<times> List) list" where
  "collate list =
     fold (\<lambda>vm m. AList.update (Provider vm)
                    ((case map_of m (Provider vm) of None \<Rightarrow> [] | Some vms \<Rightarrow> vms) @ [vm]) m)
          list []"

definition FanOut_task ::
    "(string \<times> 'p) list \<Rightarrow> ('p \<Rightarrow> List \<Rightarrow> 's \<Rightarrow> error option \<times> 's) \<Rightarrow> string \<Rightarrow> List \<Rightarrow> 's task" where
  "FanOut_task providers action n v s =
     (case map_of providers n of
        None \<Rightarrow> (Some (Errorf (''unknown provider name: '' @ n)), s)
      | Some p \<Rightarrow> action p v s)"

definition FanOut ::
    "(string \<times> 'p) list \<Rightarrow> List \<Rightarrow> ('p \<Rightarrow> List \<Rightarrow> 's \<Rightarrow> error option \<times> 's) \<Rightarrow> nat list \<Rightarrow> 's
     \<Rightarrow> error option \<times> 's" where
  "FanOut providers list action sched s =
     (let m = collate list;
          g = fold (\<lambda>(name, vms) g. Group_Go g (FanOut_task providers action name vms)) m Group_zero
      in Group_Wait g sched s)"

subsection \<open>Observing the invocations\<close>

text \<open>
  To say which invocations of an action happen, the action is run with a log beside
  its state: each invocation appends its arguments to the log and otherwise does what
  the action does. The action cannot read the log.
\<close>

definition traced ::
    "('p \<Rightarrow> 's \<Rightarrow> error option \<times> 's) \<Rightarrow> 'p \<Rightarrow> ('p list \<times> 's) \<Rightarrow> error option \<times> ('p list \<times> 's)" where
  "traced action p st =
     (case action p (snd st) of (e, s') \<Rightarrow> (e, (fst st @ [p], s')))"

definition traced_fan ::
    "('p \<Rightarrow> List \<Rightarrow> 's \<Rightarrow> error option \<times> 's) \<Rightarrow> 'p \<Rightarrow> List \<Rightarrow> (('p \<times> List) list \<times> 's)
     \<Rightarrow> error option \<times> (('p \<times> List) list \<times> 's)" where
  "traced_fan action p v st =
     (case action p v (snd st) of (e, s') \<Rightarrow> (e, (fst st @ [(p, v)], s')))"

text \<open>
  What each of a list of goroutines returns, in the order they run, and the first
  error among such results.
\<close>

fun results :: "'s task list \<Rightarrow> 's \<Rightarrow> error option list" where
  "results [] s = []"
| "results (f # fs) s = (case f s of (e, s') \<Rightarrow> e # results fs s')"

fun first_error :: "error option list \<Rightarrow> error option" where
  "first_error [] = None"
| "first_error (None # es) = first_error es"
| "first_error (Some e # es) = Some e"

subsection \<open>\<open>FindActiveAccounts\<close> and its cache\<close>

text \<open>
  A \<open>map[string]string\<close> is a reference: the maps live in a heap, a list of cells
  addressed by position, and a value of map type is \<open>None\<close> for \<open>nil\<close> or the address of
  a cell. \<open>make\<close> adds an empty cell at the end. The package variables are \<open>Providers\<close>
  and \<open>cachedActiveAccounts\<close>.
\<close>

type_synonym heap = "(string \<times> string) list list"

record globals =
  Providers :: "(string \<times> Provider) list"
  cachedActiveAccounts :: "nat option"
  heap :: heap

definition make_map :: "heap \<Rightarrow> nat \<times> heap" where
  "make_map h = (length h, h @ [[]])"

definition map_store :: "nat \<Rightarrow> string \<Rightarrow> string \<Rightarrow> heap \<Rightarrow> heap" where
  "map_store a k v h = h[a := AList.update k v (h ! a)]"

text \<open>The closure passed to \<open>ProvidersSequential\<close>; \<open>source\<close> is the map it writes to.\<close>

definition account_action :: "nat \<Rightarrow> Provider \<Rightarrow> heap \<Rightarrow> error option \<times> heap" where
  "account_action source p h =
     (case FindActiveAccount p of
        (account, Some err) \<Rightarrow> (Some err, h)
      | (account, None) \<Rightarrow>
          if length account > 0 then (None, map_store source (Provider_Name p) account h)
          else (None, h))"

text \<open>The end of the function: a fresh map, filled from \<open>source\<close> entry by entry.\<close>

definition return_copy :: "nat \<Rightarrow> globals \<Rightarrow> (nat option \<times> error option) \<times> globals" where
  "return_copy source g =
     (case make_map (heap g) of
        (ret, h1) \<Rightarrow>
          ((Some ret, None),
           g\<lparr>heap := fold (\<lambda>(k, v) h. map_store ret k v h) (h1 ! source) h1\<rparr>))"

definition FindActiveAccounts :: "globals \<Rightarrow> (nat option \<times> error option) \<times> globals" where
  "FindActiveAccounts g =
     (case cachedActiveAccounts g of
        None \<Rightarrow>
          (case make_map (heap g) of
             (source, h1) \<Rightarrow>
               (case ProvidersSequential (Providers g) (AllProviderNames (Providers g))
                       (account_action source) h1 of
                  (Some err, h2) \<Rightarrow> ((None, Some err), g\<lparr>heap := h2\<rparr>)
                | (None, h2) \<Rightarrow>
                    return_copy source (g\<lparr>heap := h2, cachedActiveAccounts := Some source\<rparr>)))
      | Some source \<Rightarrow> return_copy source g)"

text \<open>
  The states the package can be in: every map has distinct keys, and the cache is
  \<open>nil\<close> or the address of a cell.
\<close>

definition wf_globals :: "globals \<Rightarrow> bool" where
  "wf_globals g =
     ((\<forall>m \<in> set (heap g). distinct (map fst m))
      \<and> (case cachedActiveAccounts g of None \<Rightarrow> True | Some c \<Rightarrow> c < length (heap g)))"

text \<open>
  The accounts a registry reports when no provider fails: one entry under each
  provider's own name, except for the providers that report the empty account.
\<close>

definition accounts_of :: "(string \<times> Provider) list \<Rightarrow> (string \<times> string) list" where
  "accounts_of providers =
     fold (\<lambda>(name, p) m.
             if fst (FindActiveAccount p) = [] then m
             else AList.update (Provider_Name p) (fst (FindActiveAccount p)) m)
          providers []"

subsection \<open>Examples\<close>

text \<open>
  A registry of three providers, an action that fails on one provider and counts its
  invocations, the three VMs of the specification's scenario, and an action that
  notes the provider and the names of the VMs it is given.
\<close>

definition fail_on :: "string \<Rightarrow> string \<Rightarrow> nat \<Rightarrow> error option \<times> nat" where
  "fail_on bad p s = (if p = bad then (Some (Errorf ''boom''), Suc s) else (None, Suc s))"

definition abc :: "(string \<times> string) list" where
  "abc = [(''a'', ''A''), (''b'', ''B''), (''c'', ''C'')]"

definition three_vms :: List where
  "three_vms = [mkVM ''c-1'' ''aws'' ''us-east-1a'', mkVM ''c-2'' ''gce'' ''us-east1-b'',
                mkVM ''c-3'' ''aws'' ''us-east-1a'']"

definition note_names :: "string \<Rightarrow> List \<Rightarrow> string list \<Rightarrow> error option \<times> string list" where
  "note_names p vms s = (None, s @ [p] @ map Name vms)"

text \<open>
  The state of the package at start, a provider that reports an account, and one whose
  \<open>FindActiveAccount\<close> fails.
\<close>

definition start :: "(string \<times> Provider) list \<Rightarrow> globals" where
  "start ps = \<lparr>Providers = ps, cachedActiveAccounts = None, heap = []\<rparr>"

definition reports :: "string \<Rightarrow> string \<Rightarrow> Provider" where
  "reports name account = \<lparr>Provider_Name = name, FindActiveAccount = (account, None)\<rparr>"

definition failing :: "string \<Rightarrow> error \<Rightarrow> Provider" where
  "failing name err = \<lparr>Provider_Name = name, FindActiveAccount = ([], Some err)\<rparr>"

section \<open>Proofs\<close>

subsection \<open>Formatting\<close>

lemma fmt_digits_decimal: "fmt_digits u buf = decimal u @ buf"
proof (induction u buf rule: fmt_digits.induct)
  case (1 u buf)
  show ?case
  proof (cases "u \<ge> 10")
    case True
    have m: "u - (u div 10) * 10 = u mod 10"
      by (simp add: minus_div_mult_eq_mod)
    from True have "fmt_digits u buf = fmt_digits (u div 10) (digit (u mod 10) # buf)"
      by (subst fmt_digits.simps) (simp add: m)
    also have "\<dots> = decimal (u div 10) @ digit (u mod 10) # buf"
      using 1 True by (simp add: m)
    also have "\<dots> = decimal u @ buf"
      using True by (subst (2) decimal.simps) simp
    finally show ?thesis .
  next
    case False
    then show ?thesis
      by (subst fmt_digits.simps, subst decimal.simps) simp
  qed
qed

lemma fmt_zeros_pad: "fmt_zeros prec buf = pad_zeros prec buf"
proof (induction prec buf rule: fmt_zeros.induct)
  case (1 prec buf)
  show ?case
  proof (cases "prec > length buf")
    case True
    then have "fmt_zeros prec buf = pad_zeros prec (CHR ''0'' # buf)"
      using 1 by (subst fmt_zeros.simps) simp
    also have "\<dots> = replicate (prec - Suc (length buf)) CHR ''0'' @ CHR ''0'' # buf"
      by (simp add: pad_zeros_def)
    also have "\<dots> = replicate (Suc (prec - Suc (length buf))) CHR ''0'' @ buf"
      by (simp only: replicate_app_Cons_same replicate_Suc append_Cons)
    also have "\<dots> = pad_zeros prec buf"
      using True by (simp add: pad_zeros_def Suc_diff_Suc)
    finally show ?thesis .
  next
    case False
    then show ?thesis
      by (subst fmt_zeros.simps) (simp add: pad_zeros_def)
  qed
qed

lemma digit_value_digit: "d < 10 \<Longrightarrow> digit_value (digit d) = d"
proof -
  assume "d < 10"
  then have "d \<in> {0, 1, 2, 3, 4, 5, 6, 7, 8, 9}" by auto
  then show ?thesis
    by (auto simp: digit_value_def digit_def)
qed

lemma decimal_value_snoc: "decimal_value (ds @ [c]) = 10 * decimal_value ds + digit_value c"
  by (simp add: decimal_value_def)

lemma decimal_value_decimal: "decimal_value (decimal n) = n"
proof (induction n rule: decimal.induct)
  case (1 n)
  show ?case
  proof (cases "n < 10")
    case True
    then show ?thesis
      by (subst decimal.simps) (simp add: decimal_value_def digit_value_digit)
  next
    case False
    then have "decimal_value (decimal n) = 10 * decimal_value (decimal (n div 10)) + digit_value (digit (n mod 10))"
      by (subst decimal.simps) (simp add: decimal_value_snoc)
    also have "\<dots> = 10 * (n div 10) + n mod 10"
      using 1 False by (simp add: digit_value_digit)
    finally show ?thesis by simp
  qed
qed

lemma decimal_value_replicate_zero:
  "decimal_value (replicate k CHR ''0'' @ ds) = decimal_value ds"
proof -
  have "foldl (\<lambda>acc c. 10 * acc + digit_value c) 0 (replicate k CHR ''0'') = 0"
    by (induction k) (simp_all add: digit_value_def)
  then show ?thesis by (simp add: decimal_value_def)
qed

text \<open>
  C10. For every cluster name \<open>c\<close> and index \<open>i\<close>, \<open>Name(c, i)\<close> is \<open>c\<close>, a hyphen and
  the decimal representation of \<open>i\<close> padded on the left with zeros to at least four
  digits (the sign of a negative index stays in front of the digits). The digits read
  back as the magnitude of \<open>i\<close>, and there are at least four of them.
\<close>

theorem Name_padded_decimal:
  "vm_Name c i = c @ ''-'' @ padded_decimal 4 i
   \<and> decimal_value (pad_zeros 4 (decimal (nat \<bar>i\<bar>))) = nat \<bar>i\<bar>
   \<and> length (pad_zeros 4 (decimal (nat \<bar>i\<bar>))) \<ge> 4
   \<and> length (pad_zeros 4 (decimal (nat \<bar>i\<bar>))) = max 4 (length (decimal (nat \<bar>i\<bar>)))"
proof -
  have "vm_Name c i = c @ ''-'' @ padded_decimal 4 i"
    by (simp add: vm_Name_def fmtInteger_def padded_decimal_def fmt_digits_decimal fmt_zeros_pad)
  moreover have "decimal_value (pad_zeros 4 (decimal (nat \<bar>i\<bar>))) = nat \<bar>i\<bar>"
    by (simp add: pad_zeros_def decimal_value_replicate_zero decimal_value_decimal)
  moreover have "length (pad_zeros 4 (decimal (nat \<bar>i\<bar>))) = max 4 (length (decimal (nat \<bar>i\<bar>)))"
    by (simp add: pad_zeros_def)
  ultimately show ?thesis by simp
qed

theorem Name_padded_decimal_witness: "vm_Name ''foo'' 7 = ''foo-0007''"
proof -
  have d: "decimal 7 = ''7''"
    by (subst decimal.simps) (simp add: digit_def)
  have r: "replicate 3 CHR ''0'' = ''000''"
    by (simp add: numeral_3_eq_3)
  show ?thesis
    using Name_padded_decimal [of "''foo''" 7]
    by (simp add: padded_decimal_def pad_zeros_def d r)
qed

subsection \<open>The matcher of \<open>regionRE\<close>\<close>

lemma rmatch_nonempty: "rmatch (i # r) s = Some ks \<Longrightarrow> ks \<noteq> []"
  by (cases i; cases s) (auto split: if_splits option.splits list.splits)

lemma rmatch_Star_Cons:
  "rmatch (Star c # r) (x # xs) \<noteq> None \<longleftrightarrow>
     (cls_match c x \<and> rmatch (Star c # r) xs \<noteq> None) \<or> rmatch r (x # xs) \<noteq> None"
proof (cases "cls_match c x \<and> rmatch (Star c # r) xs \<noteq> None")
  case True
  then obtain ks where ks: "rmatch (Star c # r) xs = Some ks" by blast
  with rmatch_nonempty obtain k ks' where "ks = k # ks'"
    by (cases ks) blast+
  with ks True show ?thesis by simp
next
  case False
  then show ?thesis
    by (cases "rmatch (Star c # r) xs") auto
qed

lemma rmatch_Star_iff:
  "rmatch (Star c # r) t \<noteq> None \<longleftrightarrow>
     (\<exists>u v. t = u @ v \<and> (\<forall>a\<in>set u. cls_match c a) \<and> rmatch r v \<noteq> None)"
proof (induction t)
  case Nil
  then show ?case by simp
next
  case (Cons x xs)
  show ?case
  proof
    assume m: "rmatch (Star c # r) (x # xs) \<noteq> None"
    show "\<exists>u v. x # xs = u @ v \<and> (\<forall>a\<in>set u. cls_match c a) \<and> rmatch r v \<noteq> None"
    proof (cases "cls_match c x \<and> rmatch (Star c # r) xs \<noteq> None")
      case True
      with Cons obtain u v where "xs = u @ v" "\<forall>a\<in>set u. cls_match c a" "rmatch r v \<noteq> None"
        by blast
      with True have "x # xs = (x # u) @ v \<and> (\<forall>a\<in>set (x # u). cls_match c a) \<and> rmatch r v \<noteq> None"
        by simp
      then show ?thesis by blast
    next
      case False
      with m have "rmatch r (x # xs) \<noteq> None"
        unfolding rmatch_Star_Cons by blast
      then have "x # xs = [] @ (x # xs) \<and> (\<forall>a\<in>set []. cls_match c a) \<and> rmatch r (x # xs) \<noteq> None"
        by simp
      then show ?thesis by blast
    qed
  next
    assume "\<exists>u v. x # xs = u @ v \<and> (\<forall>a\<in>set u. cls_match c a) \<and> rmatch r v \<noteq> None"
    then obtain u v where uv: "x # xs = u @ v" "\<forall>a\<in>set u. cls_match c a" "rmatch r v \<noteq> None"
      by blast
    show "rmatch (Star c # r) (x # xs) \<noteq> None"
    proof (cases u)
      case Nil
      with uv have "rmatch r (x # xs) \<noteq> None" by simp
      then show ?thesis
        unfolding rmatch_Star_Cons by blast
    next
      case (Cons a u')
      with uv have x: "cls_match c x" and xs: "xs = u' @ v" and u': "\<forall>a\<in>set u'. cls_match c a"
        by auto
      with uv Cons.IH have "rmatch (Star c # r) xs \<noteq> None"
        by blast
      with x show ?thesis
        unfolding rmatch_Star_Cons by blast
    qed
  qed
qed

lemma find_leftmost_iff:
  "find_leftmost items s \<noteq> None \<longleftrightarrow> (\<exists>pre t. s = pre @ t \<and> rmatch items t \<noteq> None)"
proof (induction s)
  case Nil
  then show ?case by simp
next
  case (Cons x xs)
  show ?case
  proof (cases "rmatch items (x # xs)")
    case (Some ks)
    then have "x # xs = [] @ (x # xs) \<and> rmatch items (x # xs) \<noteq> None" by simp
    then have "\<exists>pre t. x # xs = pre @ t \<and> rmatch items t \<noteq> None" by blast
    with Some show ?thesis by simp
  next
    case None
    have "(\<exists>pre t. x # xs = pre @ t \<and> rmatch items t \<noteq> None) \<longleftrightarrow>
          (\<exists>pre t. xs = pre @ t \<and> rmatch items t \<noteq> None)"
    proof
      assume "\<exists>pre t. x # xs = pre @ t \<and> rmatch items t \<noteq> None"
      then obtain pre t where pt: "x # xs = pre @ t" "rmatch items t \<noteq> None" by blast
      with None obtain a pre' where "pre = a # pre'" by (cases pre) auto
      with pt have "xs = pre' @ t" by simp
      with pt show "\<exists>pre t. xs = pre @ t \<and> rmatch items t \<noteq> None" by blast
    next
      assume "\<exists>pre t. xs = pre @ t \<and> rmatch items t \<noteq> None"
      then obtain pre t where "xs = pre @ t" "rmatch items t \<noteq> None" by blast
      then have "x # xs = (x # pre) @ t \<and> rmatch items t \<noteq> None" by simp
      then show "\<exists>pre t. x # xs = pre @ t \<and> rmatch items t \<noteq> None" by blast
    qed
    with None Cons show ?thesis by simp
  qed
qed

lemma region_suffix_I1: "lower c \<Longrightarrow> x \<noteq> CHR ''-'' \<Longrightarrow> region_suffix (c # x # rest)"
  by simp

lemma region_suffix_I2: "lower c \<Longrightarrow> x \<noteq> CHR ''-'' \<Longrightarrow> region_suffix (c # CHR ''-'' # x # rest)"
  by simp

lemma region_suffix_D:
  assumes "region_suffix r"
  shows "\<exists>c x rest. lower c \<and> x \<noteq> CHR ''-'' \<and> (r = c # x # rest \<or> r = c # CHR ''-'' # x # rest)"
proof -
  from assms obtain c r1 where r: "r = c # r1"
    by (cases r) simp_all
  with assms obtain x rest where r1: "r1 = x # rest"
    by (cases r1) simp_all
  show ?thesis
  proof (cases "x = CHR ''-''")
    case False
    with r r1 assms have "lower c \<and> x \<noteq> CHR ''-'' \<and> r = c # x # rest" by simp
    then show ?thesis by blast
  next
    case True
    with r r1 assms obtain y ys where "rest = y # ys" "y \<noteq> CHR ''-''" "lower c"
      by (cases rest) simp_all
    with r r1 True have "lower c \<and> y \<noteq> CHR ''-'' \<and> r = c # CHR ''-'' # y # ys" by simp
    then show ?thesis by blast
  qed
qed

lemma rmatch_rest4_iff:
  "rmatch [One (NotLit CHR ''-''), Opt (Lit CHR ''-''), One (Range CHR ''a'' CHR ''z''), EndText] v \<noteq> None
   \<longleftrightarrow> (\<exists>x c. x \<noteq> CHR ''-'' \<and> lower c \<and> (v = [x, c] \<or> v = [x, CHR ''-'', c]))"
proof (cases v)
  case Nil
  then show ?thesis by (auto simp add: lower_def)
next
  case t1: (Cons x t1)
  show ?thesis
  proof (cases t1)
    case Nil
    with t1 show ?thesis by (auto simp add: lower_def)
  next
    case t2: (Cons y t2)
    show ?thesis
    proof (cases t2)
      case Nil
      with t1 t2 show ?thesis by (auto simp add: lower_def)
    next
      case t3: (Cons z t3)
      show ?thesis
      proof (cases t3)
        case Nil
        with t1 t2 t3 show ?thesis by (auto simp add: lower_def)
      next
        case (Cons w t4)
        with t1 t2 t3 show ?thesis by (auto simp add: lower_def)
      qed
    qed
  qed
qed

lemma zone_parsable_I:
  assumes "x \<noteq> CHR ''-''" "lower c" "z = pre @ [x, c] \<or> z = pre @ [x, CHR ''-'', c]"
  shows "zone_parsable z"
proof -
  from assms(3) have "rev z = c # x # rev pre \<or> rev z = c # CHR ''-'' # x # rev pre"
    by (elim disjE; simp)
  then show ?thesis
    unfolding zone_parsable_def
  proof (elim disjE)
    assume "rev z = c # x # rev pre"
    with region_suffix_I1 [OF assms(2,1)] show "region_suffix (rev z)" by simp
  next
    assume "rev z = c # CHR ''-'' # x # rev pre"
    with region_suffix_I2 [OF assms(2,1)] show "region_suffix (rev z)" by simp
  qed
qed

lemma zone_parsable_D:
  assumes "zone_parsable z"
  shows "\<exists>pre x c. x \<noteq> CHR ''-'' \<and> lower c \<and> (z = pre @ [x, c] \<or> z = pre @ [x, CHR ''-'', c])"
proof -
  from assms obtain c x rest where l: "lower c" "x \<noteq> CHR ''-''"
    and r: "rev z = c # x # rest \<or> rev z = c # CHR ''-'' # x # rest"
    unfolding zone_parsable_def using region_suffix_D by blast
  have "z = rev rest @ [x, c] \<or> z = rev rest @ [x, CHR ''-'', c]"
  proof (rule disjE [OF r])
    assume "rev z = c # x # rest"
    then have "rev (rev z) = rev (c # x # rest)" by (rule arg_cong)
    then show ?thesis by simp
  next
    assume "rev z = c # CHR ''-'' # x # rest"
    then have "rev (rev z) = rev (c # CHR ''-'' # x # rest)" by (rule arg_cong)
    then show ?thesis by simp
  qed
  with l show ?thesis by blast
qed

lemma regionRE_suffix_match:
  assumes "rmatch [One (NotLit CHR ''-''), Opt (Lit CHR ''-''), One (Range CHR ''a'' CHR ''z''), EndText] v \<noteq> None"
  shows "find_leftmost regionRE (pre @ v) \<noteq> None"
proof -
  have "v = [] @ v \<and> (\<forall>a\<in>set []. cls_match Dot a) \<and>
      rmatch [One (NotLit CHR ''-''), Opt (Lit CHR ''-''), One (Range CHR ''a'' CHR ''z''), EndText] v \<noteq> None"
    using assms by simp
  then have "\<exists>u w. v = u @ w \<and> (\<forall>a\<in>set u. cls_match Dot a) \<and>
      rmatch [One (NotLit CHR ''-''), Opt (Lit CHR ''-''), One (Range CHR ''a'' CHR ''z''), EndText] w \<noteq> None"
    by (intro exI)
  then have "rmatch (Star Dot # [One (NotLit CHR ''-''), Opt (Lit CHR ''-''), One (Range CHR ''a'' CHR ''z''), EndText]) v \<noteq> None"
    by (rule iffD2 [OF rmatch_Star_iff])
  then have "rmatch regionRE v \<noteq> None"
    unfolding regionRE_def .
  then have "pre @ v = pre @ v \<and> rmatch regionRE v \<noteq> None"
    by simp
  then have "\<exists>p t. pre @ v = p @ t \<and> rmatch regionRE t \<noteq> None"
    by (intro exI)
  then show ?thesis
    by (rule iffD2 [OF find_leftmost_iff])
qed

lemma regionRE_match_iff: "find_leftmost regionRE z \<noteq> None \<longleftrightarrow> zone_parsable z"
proof
  assume "find_leftmost regionRE z \<noteq> None"
  then obtain pre t where z: "z = pre @ t" and m: "rmatch regionRE t \<noteq> None"
    using find_leftmost_iff [of regionRE z] by blast
  from m have "rmatch (Star Dot # [One (NotLit CHR ''-''), Opt (Lit CHR ''-''), One (Range CHR ''a'' CHR ''z''), EndText]) t \<noteq> None"
    unfolding regionRE_def .
  then obtain u v where t: "t = u @ v"
    and "rmatch [One (NotLit CHR ''-''), Opt (Lit CHR ''-''), One (Range CHR ''a'' CHR ''z''), EndText] v \<noteq> None"
    using rmatch_Star_iff [of Dot _ t] by blast
  then obtain x c where xc: "x \<noteq> CHR ''-''" "lower c" and v: "v = [x, c] \<or> v = [x, CHR ''-'', c]"
    using rmatch_rest4_iff [of v] by blast
  from z t v have "z = (pre @ u) @ [x, c] \<or> z = (pre @ u) @ [x, CHR ''-'', c]"
    by (elim disjE; simp)
  with xc show "zone_parsable z"
    by (rule zone_parsable_I)
next
  assume zp: "zone_parsable z"
  from zone_parsable_D [OF zp] show "find_leftmost regionRE z \<noteq> None"
  proof (elim exE conjE disjE)
    fix pre x c
    assume xc: "x \<noteq> CHR ''-''" "lower c" and e: "z = pre @ [x, c]"
    have "rmatch [One (NotLit CHR ''-''), Opt (Lit CHR ''-''), One (Range CHR ''a'' CHR ''z''), EndText] [x, c] \<noteq> None"
      using xc by (auto simp add: lower_def)
    then show ?thesis unfolding e by (rule regionRE_suffix_match)
  next
    fix pre x c
    assume xc: "x \<noteq> CHR ''-''" "lower c" and e: "z = pre @ [x, CHR ''-'', c]"
    have "rmatch [One (NotLit CHR ''-''), Opt (Lit CHR ''-''), One (Range CHR ''a'' CHR ''z''), EndText] [x, CHR ''-'', c] \<noteq> None"
      using xc by (simp add: lower_def)
    then show ?thesis unfolding e by (rule regionRE_suffix_match)
  qed
qed

lemma rmatch_regionRE_base:
  assumes "x \<noteq> CHR ''-''" "lower c"
  shows "rmatch regionRE [x, CHR ''-'', c] = Some [0, 1, 1, 1, 0]"
  using assms by (auto simp add: regionRE_def lower_def)

lemma rmatch_regionRE_greedy:
  assumes "CHR 0x0A \<notin> set u" "x \<noteq> CHR ''-''" "lower c"
  shows "rmatch regionRE (u @ [x, CHR ''-'', c]) = Some [length u, 1, 1, 1, 0]"
  using assms(1)
proof (induction u)
  case Nil
  show ?case using rmatch_regionRE_base [OF assms(2,3)] by simp
next
  case (Cons a u)
  then have a: "a \<noteq> CHR 0x0A" and ih: "rmatch regionRE (u @ [x, CHR ''-'', c]) = Some [length u, 1, 1, 1, 0]"
    by auto
  from ih have "rmatch (Star Dot # [One (NotLit CHR ''-''), Opt (Lit CHR ''-''), One (Range CHR ''a'' CHR ''z''), EndText])
      (u @ [x, CHR ''-'', c]) = Some [length u, 1, 1, 1, 0]"
    unfolding regionRE_def .
  with a have "rmatch (Star Dot # [One (NotLit CHR ''-''), Opt (Lit CHR ''-''), One (Range CHR ''a'' CHR ''z''), EndText])
      (a # (u @ [x, CHR ''-'', c])) = Some [Suc (length u), 1, 1, 1, 0]"
    by (simp del: rmatch.simps add: rmatch.simps(7))
  then show ?case
    unfolding regionRE_def by simp
qed

lemma find_leftmost_here: "rmatch items s = Some ks \<Longrightarrow> find_leftmost items s = Some (s, ks)"
  by (cases s) simp_all

lemma FindStringSubmatch_zone:
  assumes "CHR 0x0A \<notin> set u" "x \<noteq> CHR ''-''" "lower c"
  shows "regionRE_FindStringSubmatch (u @ [x, CHR ''-'', c]) = [u @ [x, CHR ''-'', c], u @ [x]]"
proof -
  have "find_leftmost regionRE (u @ [x, CHR ''-'', c]) = Some (u @ [x, CHR ''-'', c], [length u, 1, 1, 1, 0])"
    by (rule find_leftmost_here [OF rmatch_regionRE_greedy [OF assms]])
  then show ?thesis
    by (simp add: regionRE_FindStringSubmatch_def)
qed

lemma FindStringSubmatch_length:
  "length (regionRE_FindStringSubmatch z) = 2 \<longleftrightarrow> zone_parsable z"
proof (cases "find_leftmost regionRE z")
  case None
  with regionRE_match_iff [of z] show ?thesis
    by (simp add: regionRE_FindStringSubmatch_def)
next
  case (Some r)
  with regionRE_match_iff [of z] show ?thesis
    by (cases r) (simp add: regionRE_FindStringSubmatch_def)
qed

subsection \<open>Locality\<close>

text \<open>
  C6, as amended. For a local VM, \<open>Locality\<close> returns
  \<open>cloud=<provider>,region=<zone>,zone=<zone>\<close>. For a VM that is not local and whose zone
  is \<open><prefix>-<letter>\<close>, where the letter is one of \<open>a\<close> to \<open>z\<close> and the prefix is not
  empty, does not end in a hyphen and has no line feed before its last character, it
  returns \<open>cloud=<provider>,region=<prefix>,zone=<zone>\<close>. Whenever \<open>Locality\<close> returns, what
  it returns has that shape, with the VM's \<open>Provider\<close> and \<open>Zone\<close>.
\<close>

theorem Locality_region:
  "(IsLocal local vm \<longrightarrow>
      Locality local vm =
        Return (''cloud='' @ Provider vm @ '',region='' @ Zone vm @ '',zone='' @ Zone vm))
   \<and> (\<not> IsLocal local vm \<and> Zone vm = p @ ''-'' @ [c] \<and> lower c \<and> p \<noteq> []
        \<and> last p \<noteq> CHR ''-'' \<and> CHR 0x0A \<notin> set (butlast p) \<longrightarrow>
      Locality local vm =
        Return (''cloud='' @ Provider vm @ '',region='' @ p @ '',zone='' @ Zone vm))
   \<and> (\<forall>s. Locality local vm = Return s \<longrightarrow>
        (\<exists>region. s = ''cloud='' @ Provider vm @ '',region='' @ region @ '',zone='' @ Zone vm))"
proof (intro conjI impI allI)
  assume "IsLocal local vm"
  then show "Locality local vm =
      Return (''cloud='' @ Provider vm @ '',region='' @ Zone vm @ '',zone='' @ Zone vm)"
    by (simp add: Locality_def)
next
  assume a: "\<not> IsLocal local vm \<and> Zone vm = p @ ''-'' @ [c] \<and> lower c \<and> p \<noteq> []
        \<and> last p \<noteq> CHR ''-'' \<and> CHR 0x0A \<notin> set (butlast p)"
  then have p: "p = butlast p @ [last p]" by simp
  from a have z: "Zone vm = butlast p @ [last p, CHR ''-'', c]"
    by (subst (asm) (2) p) simp
  from a have m: "regionRE_FindStringSubmatch (butlast p @ [last p, CHR ''-'', c])
      = [butlast p @ [last p, CHR ''-'', c], butlast p @ [last p]]"
    by (intro FindStringSubmatch_zone) simp_all
  from a have "Locality local vm =
      Return (''cloud='' @ Provider vm @ '',region='' @ (butlast p @ [last p]) @ '',zone='' @ Zone vm)"
    by (simp add: Locality_def z m)
  with p show "Locality local vm =
      Return (''cloud='' @ Provider vm @ '',region='' @ p @ '',zone='' @ Zone vm)"
    by simp
next
  fix s
  assume "Locality local vm = Return s"
  then show "\<exists>region. s = ''cloud='' @ Provider vm @ '',region='' @ region @ '',zone='' @ Zone vm"
    by (auto simp add: Locality_def Let_def split: if_splits)
qed

text \<open>The zone \<open>us-east1-b\<close> of the specification, and the local zone.\<close>

theorem Locality_region_witness:
  "Locality ''local'' (mkVM ''n1'' ''gce'' ''us-east1-b'') = Return ''cloud=gce,region=us-east1,zone=us-east1-b''
   \<and> Locality ''local'' (mkVM ''n1'' ''gce'' ''local'') = Return ''cloud=gce,region=local,zone=local''"
  using Locality_region [of "''local''" "mkVM ''n1'' ''gce'' ''us-east1-b''" "''us-east1''" "CHR ''b''"]
    Locality_region [of "''local''" "mkVM ''n1'' ''gce'' ''local''" "''x''" "CHR ''b''"]
  by (simp add: mkVM_def IsLocal_def lower_def)

text \<open>
  C6 as stated fails. The zone \<open>a--b\<close> is the prefix \<open>a-\<close>, a hyphen and the letter \<open>b\<close>,
  and \<open>us-east1-B\<close> is the prefix \<open>us-east1\<close>, a hyphen and the letter \<open>B\<close>; in both cases
  \<open>regionRE\<close> does not match and \<open>Locality\<close> returns no string at all.
\<close>

theorem Locality_region_counterexample:
  "Zone (mkVM ''n1'' ''gce'' ''a--b'') = ''a-'' @ ''-'' @ ''b''
   \<and> Locality ''local'' (mkVM ''n1'' ''gce'' ''a--b'') = Fatalf ''unable to parse region from zone %q'' ''a--b''
   \<and> Zone (mkVM ''n1'' ''gce'' ''us-east1-B'') = ''us-east1'' @ ''-'' @ ''B''
   \<and> Locality ''local'' (mkVM ''n1'' ''gce'' ''us-east1-B'') = Fatalf ''unable to parse region from zone %q'' ''us-east1-B''"
  by (simp add: Locality_def IsLocal_def mkVM_def regionRE_FindStringSubmatch_def regionRE_def)

text \<open>
  C7, as amended. The zones \<open>regionRE\<close> matches are those that end in a character other
  than the hyphen, then at most one hyphen, then a letter from \<open>a\<close> to \<open>z\<close>. For a VM that
  is not local and whose zone is not of that kind, \<open>Locality\<close> ends the process through
  \<open>log.Fatalf\<close>: nothing comes back to the caller. In every other case it returns a string.
\<close>

theorem Locality_fatal:
  "(regionRE_FindStringSubmatch (Zone vm) \<noteq> [] \<longleftrightarrow> zone_parsable (Zone vm))
   \<and> (\<not> IsLocal local vm \<and> \<not> zone_parsable (Zone vm) \<longrightarrow>
        Locality local vm = Fatalf ''unable to parse region from zone %q'' (Zone vm))
   \<and> (IsLocal local vm \<or> zone_parsable (Zone vm) \<longrightarrow> (\<exists>s. Locality local vm = Return s))"
proof -
  have l: "length (regionRE_FindStringSubmatch (Zone vm)) = 2 \<longleftrightarrow> zone_parsable (Zone vm)"
    by (rule FindStringSubmatch_length)
  have "regionRE_FindStringSubmatch (Zone vm) \<noteq> [] \<longleftrightarrow> length (regionRE_FindStringSubmatch (Zone vm)) = 2"
    by (simp add: regionRE_FindStringSubmatch_def split: option.splits prod.splits)
  with l have "regionRE_FindStringSubmatch (Zone vm) \<noteq> [] \<longleftrightarrow> zone_parsable (Zone vm)"
    by simp
  moreover have "\<not> IsLocal local vm \<and> \<not> zone_parsable (Zone vm) \<longrightarrow>
        Locality local vm = Fatalf ''unable to parse region from zone %q'' (Zone vm)"
    using l by (simp add: Locality_def)
  moreover have "IsLocal local vm \<or> zone_parsable (Zone vm) \<longrightarrow> (\<exists>s. Locality local vm = Return s)"
    using l by (simp add: Locality_def)
  ultimately show ?thesis by blast
qed

text \<open>A zone that ends in a digit, a zone that parses and the local zone.\<close>

theorem Locality_fatal_witness:
  "Locality ''local'' (mkVM ''n1'' ''aws'' ''zone1'') = Fatalf ''unable to parse region from zone %q'' ''zone1''
   \<and> (\<exists>s. Locality ''local'' (mkVM ''n1'' ''aws'' ''us-west2-a'') = Return s)
   \<and> (\<exists>s. Locality ''local'' (mkVM ''n1'' ''aws'' ''local'') = Return s)"
  using Locality_fatal [of "mkVM ''n1'' ''aws'' ''zone1''" "''local''"]
    Locality_fatal [of "mkVM ''n1'' ''aws'' ''us-west2-a''" "''local''"]
    Locality_fatal [of "mkVM ''n1'' ''aws'' ''local''" "''local''"]
  by (simp add: mkVM_def IsLocal_def zone_parsable_def lower_def)

text \<open>
  C7 as stated fails. On the zone \<open>x\<close> the outcome is the exit of the process, not an
  error handed to the caller; and the zone \<open>us-east-1b\<close>, which has no hyphen before its
  last letter, is parsed all the same.
\<close>

theorem Locality_fatal_counterexample:
  "Locality ''local'' (mkVM ''n1'' ''aws'' ''x'') = Fatalf ''unable to parse region from zone %q'' ''x''
   \<and> Locality ''local'' (mkVM ''n1'' ''aws'' ''us-east-1b'') = Return ''cloud=aws,region=us-east-1,zone=us-east-1b''"
  by (simp add: Locality_def IsLocal_def mkVM_def regionRE_FindStringSubmatch_def regionRE_def)

subsection \<open>Named providers\<close>

text \<open>
  C3. When the name is not a key of the registry, \<open>ForProvider\<close> fails with the error
  \<open>unknown vm provider: <name>\<close> and leaves the state as it was, whatever the action;
  when the name is present and the action returns an error, it returns that error
  wrapped with \<open>in provider: <name>\<close>; when the action succeeds, it returns no error.
  The action is invoked once, on the provider found, and not at all when none is found.
\<close>

theorem ForProvider_cases:
  "(map_of providers named = None \<longrightarrow>
      ForProvider providers named action s = (Some (Errorf (''unknown vm provider: '' @ named)), s))
   \<and> (map_of providers named = Some p \<and> action p s = (Some err, s') \<longrightarrow>
      ForProvider providers named action s = (Some (Wrapf err (''in provider: '' @ named)), s'))
   \<and> (map_of providers named = Some p \<and> action p s = (None, s') \<longrightarrow>
      ForProvider providers named action s = (None, s'))
   \<and> fst (snd (ForProvider providers named (traced action) (log, s))) =
        (case map_of providers named of None \<Rightarrow> log | Some q \<Rightarrow> log @ [q])"
  by (auto simp add: ForProvider_def traced_def split: option.splits prod.splits)

text \<open>
  A name that is not registered, a provider on which the action fails, and one on which
  it succeeds.
\<close>

theorem ForProvider_cases_witness:
  "ForProvider abc ''z'' (fail_on ''B'') 0 = (Some (Errorf ''unknown vm provider: z''), 0)
   \<and> ForProvider abc ''b'' (fail_on ''B'') 0 = (Some (Wrapf (Errorf ''boom'') ''in provider: b''), 1)
   \<and> ForProvider abc ''a'' (fail_on ''B'') 0 = (None, 1)"
  using ForProvider_cases [where providers = abc and named = "''z''"
        and action = "fail_on ''B''" and s = 0]
    ForProvider_cases [where providers = abc and named = "''b''" and p = "''B''"
        and action = "fail_on ''B''" and s = 0 and err = "Errorf ''boom''" and s' = 1]
    ForProvider_cases [where providers = abc and named = "''a''" and p = "''A''"
        and action = "fail_on ''B''" and s = 0 and s' = 1]
  by (simp add: fail_on_def abc_def)

lemma map_filter_append: "List.map_filter f (xs @ ys) = List.map_filter f xs @ List.map_filter f ys"
  by (induction xs) (simp_all split: option.splits)

lemma ProvidersSequential_append:
  "ProvidersSequential P (xs @ ys) a s =
     (case ProvidersSequential P xs a s of
        (Some e, s') \<Rightarrow> (Some e, s')
      | (None, s') \<Rightarrow> ProvidersSequential P ys a s')"
  by (induction xs arbitrary: s) (simp_all split: prod.splits option.splits)

lemma ForProvider_traced_log:
  "ForProvider P n (traced a) st = (e, st') \<Longrightarrow> fst st' = fst st @ List.map_filter (map_of P) [n]"
  by (auto simp add: ForProvider_def traced_def List.map_filter_simps split: option.splits prod.splits)

lemma ForProvider_success_registered:
  "ForProvider P n a s = (None, s') \<Longrightarrow> map_of P n \<noteq> None"
  by (auto simp add: ForProvider_def split: option.splits prod.splits)

lemma ProvidersSequential_success_log:
  "ProvidersSequential P named (traced a) st = (None, st') \<Longrightarrow>
     fst st' = fst st @ List.map_filter (map_of P) named \<and> (\<forall>n\<in>set named. map_of P n \<noteq> None)"
proof (induction named arbitrary: st)
  case Nil
  then show ?case by (simp)
next
  case (Cons n named)
  from Cons.prems obtain sta where n: "ForProvider P n (traced a) st = (None, sta)"
    and r: "ProvidersSequential P named (traced a) sta = (None, st')"
    by (auto split: prod.splits option.splits)
  from ForProvider_traced_log [OF n] have l1: "fst sta = fst st @ List.map_filter (map_of P) [n]" .
  from Cons.IH [OF r] have l2: "fst st' = fst sta @ List.map_filter (map_of P) named"
    and reg: "\<forall>n\<in>set named. map_of P n \<noteq> None" by simp_all
  have "List.map_filter (map_of P) (n # named) = List.map_filter (map_of P) [n] @ List.map_filter (map_of P) named"
    using map_filter_append [of "map_of P" "[n]" named] by simp
  with l1 l2 have "fst st' = fst st @ List.map_filter (map_of P) (n # named)" by simp
  with reg ForProvider_success_registered [OF n] show ?case by simp
qed

text \<open>Running an action with the log changes neither its errors nor its state.\<close>

lemma ForProvider_traced_plain:
  "fst (ForProvider P n (traced a) st) = fst (ForProvider P n a (snd st))
   \<and> snd (snd (ForProvider P n (traced a) st)) = snd (ForProvider P n a (snd st))"
  by (auto simp add: ForProvider_def traced_def split: option.splits prod.splits)

lemma ProvidersSequential_traced_plain:
  "fst (ProvidersSequential P ns (traced a) st) = fst (ProvidersSequential P ns a (snd st))
   \<and> snd (snd (ProvidersSequential P ns (traced a) st)) = snd (ProvidersSequential P ns a (snd st))"
proof (induction ns arbitrary: st)
  case Nil
  then show ?case by simp
next
  case (Cons n ns)
  obtain e sta where t: "ForProvider P n (traced a) st = (e, sta)"
    by (cases "ForProvider P n (traced a) st")
  with ForProvider_traced_plain [of P n a st]
  have p: "ForProvider P n a (snd st) = (e, snd sta)"
    by (cases "ForProvider P n a (snd st)") simp
  show ?case
  proof (cases e)
    case None
    with t p Cons [of sta] show ?thesis by simp
  next
    case (Some err)
    with t p show ?thesis by simp
  qed
qed

text \<open>
  C4. \<open>ProvidersSequential\<close> goes through the names in the order given. As long as the
  invocations of \<open>ForProvider\<close> succeed it goes on to the next name; at the first name
  whose invocation returns an error it returns that error, with the state that
  invocation left, whatever names follow: the action has been invoked on the providers
  of the names up to that one and on no other. When every invocation succeeds it
  returns no error, every name is registered and the action has been invoked on the
  provider of each name, in order. The log apart, the run is the run of the action
  itself.
\<close>

theorem ProvidersSequential_fail_fast:
  "ProvidersSequential providers [] (traced action) st = (None, st)
   \<and> (ProvidersSequential providers pre (traced action) st = (None, sta)
        \<and> ForProvider providers n (traced action) sta = (None, stb) \<longrightarrow>
      ProvidersSequential providers (pre @ [n]) (traced action) st = (None, stb))
   \<and> (ProvidersSequential providers pre (traced action) st = (None, sta)
        \<and> ForProvider providers n (traced action) sta = (Some err, stb) \<longrightarrow>
      ProvidersSequential providers (pre @ n # post) (traced action) st = (Some err, stb)
      \<and> fst stb = fst st @ List.map_filter (map_of providers) (pre @ [n]))
   \<and> (ProvidersSequential providers named (traced action) st = (None, st') \<longrightarrow>
      fst st' = fst st @ List.map_filter (map_of providers) named
      \<and> (\<forall>n\<in>set named. map_of providers n \<noteq> None))
   \<and> fst (ProvidersSequential providers named (traced action) st) =
        fst (ProvidersSequential providers named action (snd st))
   \<and> snd (snd (ProvidersSequential providers named (traced action) st)) =
        snd (ProvidersSequential providers named action (snd st))"
proof (intro conjI impI)
  show "ProvidersSequential providers [] (traced action) st = (None, st)" by simp
next
  assume "ProvidersSequential providers pre (traced action) st = (None, sta)
        \<and> ForProvider providers n (traced action) sta = (None, stb)"
  then show "ProvidersSequential providers (pre @ [n]) (traced action) st = (None, stb)"
    by (simp add: ProvidersSequential_append)
next
  assume a: "ProvidersSequential providers pre (traced action) st = (None, sta)
        \<and> ForProvider providers n (traced action) sta = (Some err, stb)"
  then show "ProvidersSequential providers (pre @ n # post) (traced action) st = (Some err, stb)"
    by (simp add: ProvidersSequential_append)
  from a ProvidersSequential_success_log [of providers pre action st sta]
  have "fst sta = fst st @ List.map_filter (map_of providers) pre" by simp
  moreover from a ForProvider_traced_log [of providers n action sta "Some err" stb]
  have "fst stb = fst sta @ List.map_filter (map_of providers) [n]" by simp
  ultimately show "fst stb = fst st @ List.map_filter (map_of providers) (pre @ [n])"
    by (simp add: map_filter_append)
next
  assume "ProvidersSequential providers named (traced action) st = (None, st')"
  then show "fst st' = fst st @ List.map_filter (map_of providers) named"
    using ProvidersSequential_success_log by blast
next
  assume "ProvidersSequential providers named (traced action) st = (None, st')"
  then show "\<forall>n\<in>set named. map_of providers n \<noteq> None"
    using ProvidersSequential_success_log by blast
next
  show "fst (ProvidersSequential providers named (traced action) st) =
        fst (ProvidersSequential providers named action (snd st))"
    by (simp add: ProvidersSequential_traced_plain)
next
  show "snd (snd (ProvidersSequential providers named (traced action) st)) =
        snd (ProvidersSequential providers named action (snd st))"
    by (simp add: ProvidersSequential_traced_plain)
qed

lemma tasks_fold_Go:
  "tasks (fold (\<lambda>x g. Group_Go g (F x)) xs g0) = tasks g0 @ map F xs"
  by (induction xs arbitrary: g0) (simp_all add: Group_Go_def)

lemma schedule_bound: "schedule n sched \<Longrightarrow> i \<in> set sched \<Longrightarrow> i < n"
  by (simp add: schedule_def)

lemma schedule_length: "schedule n sched \<Longrightarrow> length sched = n"
proof -
  assume s: "schedule n sched"
  then have d: "distinct sched" and e: "set sched = {0..<n}"
    by (simp_all add: schedule_def)
  from distinct_card [OF d] have "card (set sched) = length sched" .
  with e show ?thesis by simp
qed

lemma schedule_mset: "schedule n sched \<Longrightarrow> mset sched = mset [0..<n]"
proof -
  assume "schedule n sched"
  then have "distinct sched" "distinct [0..<n]" "set sched = set [0..<n]"
    by (simp_all add: schedule_def)
  then show ?thesis
    using set_eq_iff_mset_eq_distinct by blast
qed

lemma schedule_tasks:
  assumes "schedule (length xs) sched"
  shows "map (\<lambda>i. map F xs ! i) sched = map (\<lambda>i. F (xs ! i)) sched"
  by (rule map_cong) (simp_all add: schedule_bound [OF assms])

lemma run_tasks_first_error:
  "fst (run_tasks fs err s) = (case err of Some kept \<Rightarrow> Some kept | None \<Rightarrow> first_error (results fs s))"
proof (induction fs arbitrary: err s)
  case Nil
  then show ?case by (simp split: option.splits)
next
  case (Cons f fs)
  obtain e s' where f: "f s = (e, s')" by (cases "f s")
  show ?case
  proof (cases err)
    case None
    with f Cons [of e s'] show ?thesis
      by (cases e) simp_all
  next
    case (Some kept)
    with f Cons [of "Some kept" s'] show ?thesis by simp
  qed
qed

lemma length_results: "length (results fs s) = length fs"
  by (induction fs arbitrary: s) (simp_all split: prod.splits)

lemma run_tasks_traced_log:
  "fst (snd (run_tasks (map (\<lambda>n. ForProvider P n (traced a)) ns) err st)) =
     fst st @ List.map_filter (map_of P) ns"
proof (induction ns arbitrary: err st)
  case Nil
  then show ?case by simp
next
  case (Cons n ns)
  obtain e st1 where n: "ForProvider P n (traced a) st = (e, st1)"
    by (cases "ForProvider P n (traced a) st")
  from ForProvider_traced_log [OF n] have "fst st1 = fst st @ List.map_filter (map_of P) [n]" .
  moreover have "List.map_filter (map_of P) (n # ns) = List.map_filter (map_of P) [n] @ List.map_filter (map_of P) ns"
    using map_filter_append [of "map_of P" "[n]" ns] by simp
  ultimately show ?case
    using n Cons [of "case err of None \<Rightarrow> e | Some kept \<Rightarrow> Some kept" st1] by simp
qed

lemma mset_map_filter_schedule:
  assumes "schedule (length xs) sched"
  shows "mset (List.map_filter f (map (\<lambda>i. xs ! i) sched)) = mset (List.map_filter f xs)"
proof -
  have "mset (map (\<lambda>i. xs ! i) sched) = mset (map (\<lambda>i. xs ! i) [0..<length xs])"
    using schedule_mset [OF assms] by (metis mset_map)
  also have "map (\<lambda>i. xs ! i) [0..<length xs] = xs"
    by (rule map_nth)
  finally have m: "mset (map (\<lambda>i. xs ! i) sched) = mset xs" .
  have "mset (filter (\<lambda>x. f x \<noteq> None) (map (\<lambda>i. xs ! i) sched)) =
      filter_mset (\<lambda>x. f x \<noteq> None) (mset (map (\<lambda>i. xs ! i) sched))"
    by (rule mset_filter)
  also have "\<dots> = filter_mset (\<lambda>x. f x \<noteq> None) (mset xs)"
    by (simp only: m)
  also have "\<dots> = mset (filter (\<lambda>x. f x \<noteq> None) xs)"
    by (rule mset_filter [symmetric])
  finally have "image_mset (the \<circ> f) (mset (filter (\<lambda>x. f x \<noteq> None) (map (\<lambda>i. xs ! i) sched))) =
      image_mset (the \<circ> f) (mset (filter (\<lambda>x. f x \<noteq> None) xs))"
    by (rule arg_cong)
  then show ?thesis
    by (simp only: List.map_filter_def mset_map)
qed

lemma ProvidersParallel_run:
  assumes "schedule (length named) sched"
  shows "ProvidersParallel P named a sched s =
           run_tasks (map (\<lambda>i. ForProvider P (named ! i) a) sched) None s"
  by (simp add: ProvidersParallel_def Group_Wait_def tasks_fold_Go Group_zero_def
      schedule_tasks [OF assms])

lemma run_tasks_traced_plain:
  "fst (run_tasks (map (\<lambda>n. ForProvider P n (traced a)) ns) err st) =
     fst (run_tasks (map (\<lambda>n. ForProvider P n a) ns) err (snd st))
   \<and> snd (snd (run_tasks (map (\<lambda>n. ForProvider P n (traced a)) ns) err st)) =
     snd (run_tasks (map (\<lambda>n. ForProvider P n a) ns) err (snd st))"
proof (induction ns arbitrary: err st)
  case Nil
  then show ?case by simp
next
  case (Cons n ns)
  obtain e sta where t: "ForProvider P n (traced a) st = (e, sta)"
    by (cases "ForProvider P n (traced a) st")
  with ForProvider_traced_plain [of P n a st]
  have p: "ForProvider P n a (snd st) = (e, snd sta)"
    by (cases "ForProvider P n a (snd st)") simp
  from t p Cons [of "case err of None \<Rightarrow> e | Some kept \<Rightarrow> Some kept" sta] show ?case
    by simp
qed

lemma ProvidersParallel_traced_plain:
  assumes "schedule (length named) sched"
  shows "fst (ProvidersParallel P named (traced a) sched st) =
           fst (ProvidersParallel P named a sched (snd st))
     \<and> snd (snd (ProvidersParallel P named (traced a) sched st)) =
           snd (ProvidersParallel P named a sched (snd st))"
proof -
  have "map (\<lambda>i. ForProvider P (named ! i) (traced a)) sched =
      map (\<lambda>n. ForProvider P n (traced a)) (map (\<lambda>i. named ! i) sched)"
    and "map (\<lambda>i. ForProvider P (named ! i) a) sched =
      map (\<lambda>n. ForProvider P n a) (map (\<lambda>i. named ! i) sched)"
    by simp_all
  then show ?thesis
    by (simp only: ProvidersParallel_run [OF assms] run_tasks_traced_plain)
qed

text \<open>
  C5. Under every schedule, \<open>ProvidersParallel\<close> is the run of one invocation of
  \<open>ForProvider\<close> for each position of the name list: each invocation returns a result,
  whatever the others return; the call returns the first error among these results in
  the order the invocations return, and no error when there is none; and the action is
  invoked exactly once for each registered name of the list. The log apart, the run is
  the run of the action itself.
\<close>

theorem ProvidersParallel_all_invoked:
  assumes "schedule (length named) sched"
  shows "ProvidersParallel providers named (traced action) sched st =
           run_tasks (map (\<lambda>i. ForProvider providers (named ! i) (traced action)) sched) None st
         \<and> fst (ProvidersParallel providers named (traced action) sched st) =
             first_error (results (map (\<lambda>i. ForProvider providers (named ! i) (traced action)) sched) st)
         \<and> length (results (map (\<lambda>i. ForProvider providers (named ! i) (traced action)) sched) st) =
             length named
         \<and> fst (snd (ProvidersParallel providers named (traced action) sched st)) =
             fst st @ List.map_filter (map_of providers) (map (\<lambda>i. named ! i) sched)
         \<and> mset (fst (snd (ProvidersParallel providers named (traced action) sched st))) =
             mset (fst st) + mset (List.map_filter (map_of providers) named)
         \<and> fst (ProvidersParallel providers named (traced action) sched st) =
             fst (ProvidersParallel providers named action sched (snd st))
         \<and> snd (snd (ProvidersParallel providers named (traced action) sched st)) =
             snd (ProvidersParallel providers named action sched (snd st))"
proof -
  let ?fs = "map (\<lambda>i. ForProvider providers (named ! i) (traced action)) sched"
  have run: "ProvidersParallel providers named (traced action) sched st = run_tasks ?fs None st"
    by (rule ProvidersParallel_run [OF assms])
  have err: "fst (run_tasks ?fs None st) = first_error (results ?fs st)"
    by (simp add: run_tasks_first_error)
  have len: "length (results ?fs st) = length named"
    by (simp add: length_results schedule_length [OF assms])
  have "?fs = map (\<lambda>n. ForProvider providers n (traced action)) (map (\<lambda>i. named ! i) sched)"
    by simp
  then have log: "fst (snd (run_tasks ?fs None st)) =
      fst st @ List.map_filter (map_of providers) (map (\<lambda>i. named ! i) sched)"
    by (simp only: run_tasks_traced_log)
  have "mset (fst (snd (run_tasks ?fs None st))) = mset (fst st) + mset (List.map_filter (map_of providers) named)"
    by (simp only: log mset_append mset_map_filter_schedule [OF assms])
  with run err len log ProvidersParallel_traced_plain [OF assms, of providers action st]
  show ?thesis by simp
qed

text \<open>
  The scenario of the specification: of \<open>a\<close>, \<open>b\<close>, \<open>c\<close> the action fails on \<open>b\<close>; it is
  invoked for \<open>a\<close> and \<open>b\<close>, never for \<open>c\<close>.
\<close>

theorem ProvidersSequential_fail_fast_witness:
  "ProvidersSequential abc [''a'', ''b'', ''c''] (traced (fail_on ''B'')) ([], 0) =
     (Some (Wrapf (Errorf ''boom'') ''in provider: b''), ([''A'', ''B''], 2))
   \<and> ProvidersSequential abc [''a'', ''c''] (traced (fail_on ''B'')) ([], 0) = (None, ([''A'', ''C''], 2))"
  using ProvidersSequential_fail_fast [where providers = abc and pre = "[''a'']" and n = "''b''"
      and post = "[''c'']" and action = "fail_on ''B''" and st = "([], 0)" and sta = "([''A''], 1)"
      and stb = "([''A'', ''B''], 2)" and err = "Wrapf (Errorf ''boom'') ''in provider: b''"
      and named = "[''a'', ''c'']" and st' = "([''A'', ''C''], 2)"]
    ProvidersSequential_fail_fast [where providers = abc and pre = "[''a'']" and n = "''c''"
      and post = "[]" and action = "fail_on ''B''" and st = "([], 0)" and sta = "([''A''], 1)"
      and stb = "([''A'', ''C''], 2)" and err = "Errorf ''boom''"
      and named = "[''a'', ''c'']" and st' = "([''A'', ''C''], 2)"]
  by (simp add: abc_def fail_on_def traced_def ForProvider_def)

text \<open>
  The same three names in parallel, returning in the order \<open>c\<close>, \<open>a\<close>, \<open>b\<close>: all three are
  invoked.
\<close>

theorem ProvidersParallel_all_invoked_witness:
  "schedule (length [''a'', ''b'', ''c'']) [2, 0, 1]
   \<and> ProvidersParallel abc [''a'', ''b'', ''c''] (traced (fail_on ''B'')) [2, 0, 1] ([], 0) =
       (Some (Wrapf (Errorf ''boom'') ''in provider: b''), ([''C'', ''A'', ''B''], 3))"
proof -
  have h: "schedule (length [''a'', ''b'', ''c'']) [2, 0, 1]"
    by (auto simp add: schedule_def)
  from ProvidersParallel_all_invoked [OF h, where providers = abc and action = "fail_on ''B''"
      and st = "([], 0)"]
  have "ProvidersParallel abc [''a'', ''b'', ''c''] (traced (fail_on ''B'')) [2, 0, 1] ([], 0) =
       (Some (Wrapf (Errorf ''boom'') ''in provider: b''), ([''C'', ''A'', ''B''], 3))"
    by (simp add: abc_def fail_on_def traced_def ForProvider_def)
  with h show ?thesis by simp
qed

lemma collate_step_mset:
  "mset (concat (map snd (AList.update k ((case map_of m k of None \<Rightarrow> [] | Some l \<Rightarrow> l) @ [x]) m))) =
     add_mset x (mset (concat (map snd m)))"
  by (induction m) auto

lemma fold_collate_mset:
  "mset (concat (map snd (fold (\<lambda>vm m. AList.update (Provider vm)
        ((case map_of m (Provider vm) of None \<Rightarrow> [] | Some vms \<Rightarrow> vms) @ [vm]) m) list m0))) =
     mset (concat (map snd m0)) + mset list"
  by (induction list arbitrary: m0) (simp_all add: collate_step_mset)

lemma fold_collate_distinct:
  "distinct (map fst m0) \<Longrightarrow>
   distinct (map fst (fold (\<lambda>vm m. AList.update (Provider vm)
        ((case map_of m (Provider vm) of None \<Rightarrow> [] | Some vms \<Rightarrow> vms) @ [vm]) m) list m0))"
  by (induction list arbitrary: m0) (simp_all add: AList.distinct_update)

lemma fold_collate_map_of:
  "map_of (fold (\<lambda>vm m. AList.update (Provider vm)
        ((case map_of m (Provider vm) of None \<Rightarrow> [] | Some vms \<Rightarrow> vms) @ [vm]) m) list m0) n =
     (if map_of m0 n = None \<and> filter (\<lambda>vm. Provider vm = n) list = [] then None
      else Some ((case map_of m0 n of None \<Rightarrow> [] | Some l \<Rightarrow> l) @ filter (\<lambda>vm. Provider vm = n) list))"
proof (induction list arbitrary: m0)
  case Nil
  then show ?case by (simp split: option.splits)
next
  case (Cons vm list)
  show ?case
    by (simp add: Cons AList.update_conv' split: option.splits)
qed

lemma collate_map_of:
  "map_of (collate list) n =
     (if n \<in> Provider ` set list then Some (filter (\<lambda>vm. Provider vm = n) list) else None)"
proof -
  have "filter (\<lambda>vm. Provider vm = n) list = [] \<longleftrightarrow> n \<notin> Provider ` set list"
    by (auto simp add: filter_empty_conv)
  then show ?thesis
    by (simp add: collate_def fold_collate_map_of)
qed

lemma collate_distinct: "distinct (map fst (collate list))"
  by (simp add: collate_def fold_collate_distinct)

lemma collate_mset: "mset (concat (map snd (collate list))) = mset list"
  by (simp add: collate_def fold_collate_mset)

lemma collate_keys: "set (map fst (collate list)) = Provider ` set list"
proof -
  have "fst ` set (collate list) = dom (map_of (collate list))"
    by (simp add: dom_map_of_conv_image_fst)
  also have "\<dots> = Provider ` set list"
    by (auto simp add: collate_map_of dom_def)
  finally show ?thesis by simp
qed

lemma collate_entry:
  assumes "(n, vms) \<in> set (collate list)"
  shows "vms = filter (\<lambda>vm. Provider vm = n) list \<and> n \<in> Provider ` set list"
proof -
  from assms collate_distinct have "map_of (collate list) n = Some vms"
    by simp
  then show ?thesis
    by (simp add: collate_map_of split: if_splits)
qed

subsection \<open>Fan-out\<close>

lemma FanOut_run:
  assumes "schedule (length (collate list)) sched"
  shows "FanOut P list a sched s =
           run_tasks (map (\<lambda>i. FanOut_task P a (fst (collate list ! i)) (snd (collate list ! i))) sched) None s"
proof -
  have f: "(\<lambda>(name, vms) g. Group_Go g (FanOut_task P a name vms)) =
        (\<lambda>x g. Group_Go g (FanOut_task P a (fst x) (snd x)))"
    by (simp add: fun_eq_iff)
  show ?thesis
    by (simp add: FanOut_def Group_Wait_def f tasks_fold_Go Group_zero_def
        schedule_tasks [OF assms])
qed

lemma collate_nth:
  assumes "i < length (collate list)"
  shows "snd (collate list ! i) = filter (\<lambda>vm. Provider vm = fst (collate list ! i)) list"
proof -
  from assms have "(fst (collate list ! i), snd (collate list ! i)) \<in> set (collate list)"
    by simp
  from collate_entry [OF this] show ?thesis by simp
qed

text \<open>
  C1. \<open>FanOut\<close> collates the collection into one sub-collection for each distinct
  provider name; the sub-collection of a name is the input filtered by that name, so
  it keeps the input order; the sub-collections together hold every VM of the input
  exactly as often as the input does; and under every schedule \<open>FanOut\<close> is the run of
  one goroutine for each name, on the sub-collection of that name.
\<close>

theorem FanOut_partition:
  "distinct (map fst (collate list))
   \<and> set (map fst (collate list)) = Provider ` set list
   \<and> (\<forall>(n, vms) \<in> set (collate list). vms = filter (\<lambda>vm. Provider vm = n) list)
   \<and> mset (concat (map snd (collate list))) = mset list
   \<and> (schedule (length (collate list)) sched \<longrightarrow>
        FanOut providers list action sched s =
          run_tasks (map (\<lambda>i. FanOut_task providers action (fst (collate list ! i))
                             (filter (\<lambda>vm. Provider vm = fst (collate list ! i)) list)) sched) None s)"
proof (intro conjI impI)
  show "distinct (map fst (collate list))" by (rule collate_distinct)
  show "set (map fst (collate list)) = Provider ` set list" by (rule collate_keys)
  show "\<forall>(n, vms) \<in> set (collate list). vms = filter (\<lambda>vm. Provider vm = n) list"
    using collate_entry by blast
  show "mset (concat (map snd (collate list))) = mset list" by (rule collate_mset)
next
  assume s: "schedule (length (collate list)) sched"
  have "map (\<lambda>i. FanOut_task providers action (fst (collate list ! i)) (snd (collate list ! i))) sched =
        map (\<lambda>i. FanOut_task providers action (fst (collate list ! i))
                             (filter (\<lambda>vm. Provider vm = fst (collate list ! i)) list)) sched"
    by (rule map_cong) (simp_all add: collate_nth schedule_bound [OF s])
  then show "FanOut providers list action sched s =
          run_tasks (map (\<lambda>i. FanOut_task providers action (fst (collate list ! i))
                             (filter (\<lambda>vm. Provider vm = fst (collate list ! i)) list)) sched) None s"
    by (simp only: FanOut_run [OF s])
qed

lemma collate_three_vms:
  "collate three_vms =
     [(''aws'', [mkVM ''c-1'' ''aws'' ''us-east-1a'', mkVM ''c-3'' ''aws'' ''us-east-1a'']),
      (''gce'', [mkVM ''c-2'' ''gce'' ''us-east1-b''])]"
  by (simp add: collate_def three_vms_def mkVM_def)

text \<open>
  The scenario of the specification: \<open>c-1\<close> and \<open>c-3\<close> on \<open>aws\<close>, \<open>c-2\<close> on \<open>gce\<close>, the goroutine
  of \<open>gce\<close> returning first.
\<close>

theorem FanOut_partition_witness:
  "schedule (length (collate three_vms)) [1, 0]
   \<and> collate three_vms =
       [(''aws'', filter (\<lambda>vm. Provider vm = ''aws'') three_vms),
        (''gce'', filter (\<lambda>vm. Provider vm = ''gce'') three_vms)]
   \<and> FanOut [(''aws'', ''AWS''), (''gce'', ''GCE'')] three_vms note_names [1, 0] [] =
        (None, [''GCE'', ''c-2'', ''AWS'', ''c-1'', ''c-3''])"
proof -
  have h: "schedule (length (collate three_vms)) [1, 0]"
    by (auto simp add: schedule_def collate_three_vms)
  have c: "collate three_vms =
       [(''aws'', filter (\<lambda>vm. Provider vm = ''aws'') three_vms),
        (''gce'', filter (\<lambda>vm. Provider vm = ''gce'') three_vms)]"
    by (simp add: collate_three_vms) (simp add: three_vms_def mkVM_def)
  from FanOut_partition [of three_vms "[1, 0]" "[(''aws'', ''AWS''), (''gce'', ''GCE'')]" note_names "[]"] h
  have "FanOut [(''aws'', ''AWS''), (''gce'', ''GCE'')] three_vms note_names [1, 0] [] =
        (None, [''GCE'', ''c-2'', ''AWS'', ''c-1'', ''c-3''])"
    by (simp add: collate_three_vms FanOut_task_def note_names_def)
      (simp add: three_vms_def mkVM_def)
  with h c show ?thesis by blast
qed

lemma FanOut_task_traced_log:
  "FanOut_task P (traced_fan a) n vms st = (e, st') \<Longrightarrow>
     fst st' = fst st @ List.map_filter (\<lambda>(n, vms). map_option (\<lambda>p. (p, vms)) (map_of P n)) [(n, vms)]"
  by (auto simp add: FanOut_task_def traced_fan_def split: option.splits prod.splits)

lemma run_tasks_traced_fan_log:
  "fst (snd (run_tasks (map (\<lambda>x. FanOut_task P (traced_fan a) (fst x) (snd x)) es) err st)) =
     fst st @ List.map_filter (\<lambda>(n, vms). map_option (\<lambda>p. (p, vms)) (map_of P n)) es"
proof (induction es arbitrary: err st)
  case Nil
  then show ?case by simp
next
  case (Cons x es)
  obtain n vms where x: "x = (n, vms)" by (cases x)
  obtain e sta where t: "FanOut_task P (traced_fan a) n vms st = (e, sta)"
    by (cases "FanOut_task P (traced_fan a) n vms st")
  from FanOut_task_traced_log [OF t]
  have "fst sta = fst st @ List.map_filter (\<lambda>(n, vms). map_option (\<lambda>p. (p, vms)) (map_of P n)) [(n, vms)]" .
  moreover have "List.map_filter (\<lambda>(n, vms). map_option (\<lambda>p. (p, vms)) (map_of P n)) ((n, vms) # es) =
      List.map_filter (\<lambda>(n, vms). map_option (\<lambda>p. (p, vms)) (map_of P n)) [(n, vms)]
      @ List.map_filter (\<lambda>(n, vms). map_option (\<lambda>p. (p, vms)) (map_of P n)) es"
    unfolding map_filter_append [symmetric] by simp
  ultimately show ?case
    using x t Cons [of "case err of None \<Rightarrow> e | Some kept \<Rightarrow> Some kept" sta] by simp
qed

lemma first_error_results_fails:
  assumes "f \<in> set fs" "\<And>s. fst (f s) \<noteq> None"
  shows "first_error (results fs s) \<noteq> None"
  using assms(1)
proof (induction fs arbitrary: s)
  case Nil
  then show ?case by simp
next
  case (Cons g fs)
  obtain e s' where g: "g s = (e, s')" by (cases "g s")
  show ?case
  proof (cases e)
    case (Some err)
    with g show ?thesis by simp
  next
    case None
    with g assms(2) [of s] have "f \<noteq> g" by auto
    with Cons.prems have "f \<in> set fs" by simp
    from Cons.IH [OF this] g None show ?thesis by simp
  qed
qed

lemma count_list_map_filter_once:
  assumes "distinct (map fst es)" "(n, v) \<in> set es" "f n = Some p"
    and "\<And>n' v'. (n', v') \<in> set es \<Longrightarrow> v' = v \<Longrightarrow> n' = n"
  shows "count_list (List.map_filter (\<lambda>(n, vms). map_option (\<lambda>p. (p, vms)) (f n)) es) (p, v) = 1"
  using assms(1,2,4)
proof (induction es)
  case Nil
  then show ?case by simp
next
  case (Cons x es)
  obtain n' v' where x: "x = (n', v')" by (cases x)
  show ?case
  proof (cases "n' = n")
    case True
    with x Cons.prems(1,2) have v: "v' = v"
      by (auto simp add: image_iff)
    have "(p, v) \<notin> set (List.map_filter (\<lambda>(n, vms). map_option (\<lambda>p. (p, vms)) (f n)) es)"
    proof
      assume "(p, v) \<in> set (List.map_filter (\<lambda>(n, vms). map_option (\<lambda>p. (p, vms)) (f n)) es)"
      then obtain m where "(m, v) \<in> set es"
        by (auto simp add: List.map_filter_def)
      with Cons.prems(3) have "m = n" by simp
      with \<open>(m, v) \<in> set es\<close> True x Cons.prems(1) show False
        by (auto simp add: image_iff)
    qed
    then have "count_list (List.map_filter (\<lambda>(n, vms). map_option (\<lambda>p. (p, vms)) (f n)) es) (p, v) = 0"
      by (simp add: count_list_0_iff)
    with True x v assms(3) show ?thesis by simp
  next
    case False
    with x Cons.prems(2) have in_es: "(n, v) \<in> set es" by auto
    from False x Cons.prems(3) have "v' \<noteq> v" by auto
    moreover from Cons.prems(1) have "distinct (map fst es)" by simp
    ultimately show ?thesis
      using Cons.IH [OF _ in_es] Cons.prems(3) x
      by (cases "f n'") simp_all
  qed
qed

lemma collate_same_group:
  assumes "(n', v') \<in> set (collate list)" "v' = filter (\<lambda>vm. Provider vm = n) list"
  shows "n' = n"
proof -
  from collate_entry [OF assms(1)] have v': "v' = filter (\<lambda>vm. Provider vm = n') list"
    and "n' \<in> Provider ` set list" by simp_all
  then obtain vm where "vm \<in> set list" "Provider vm = n'" by auto
  then have "vm \<in> set (filter (\<lambda>vm. Provider vm = n') list)" by simp
  with v' assms(2) have "vm \<in> set (filter (\<lambda>vm. Provider vm = n) list)" by simp
  with \<open>Provider vm = n'\<close> show ?thesis by simp
qed

lemma FanOut_task_traced_plain:
  "fst (FanOut_task P (traced_fan a) n v st) = fst (FanOut_task P a n v (snd st))
   \<and> snd (snd (FanOut_task P (traced_fan a) n v st)) = snd (FanOut_task P a n v (snd st))"
  by (auto simp add: FanOut_task_def traced_fan_def split: option.splits prod.splits)

lemma run_tasks_traced_fan_plain:
  "fst (run_tasks (map (\<lambda>x. FanOut_task P (traced_fan a) (fst x) (snd x)) es) err st) =
     fst (run_tasks (map (\<lambda>x. FanOut_task P a (fst x) (snd x)) es) err (snd st))
   \<and> snd (snd (run_tasks (map (\<lambda>x. FanOut_task P (traced_fan a) (fst x) (snd x)) es) err st)) =
     snd (run_tasks (map (\<lambda>x. FanOut_task P a (fst x) (snd x)) es) err (snd st))"
proof (induction es arbitrary: err st)
  case Nil
  then show ?case by simp
next
  case (Cons x es)
  obtain e sta where t: "FanOut_task P (traced_fan a) (fst x) (snd x) st = (e, sta)"
    by (cases "FanOut_task P (traced_fan a) (fst x) (snd x) st")
  with FanOut_task_traced_plain [of P a "fst x" "snd x" st]
  have p: "FanOut_task P a (fst x) (snd x) (snd st) = (e, snd sta)"
    by (cases "FanOut_task P a (fst x) (snd x) (snd st)") simp
  from t p Cons [of "case err of None \<Rightarrow> e | Some kept \<Rightarrow> Some kept" sta] show ?case
    by simp
qed

lemma FanOut_traced_plain:
  assumes "schedule (length (collate list)) sched"
  shows "fst (FanOut P list (traced_fan a) sched st) = fst (FanOut P list a sched (snd st))
     \<and> snd (snd (FanOut P list (traced_fan a) sched st)) = snd (FanOut P list a sched (snd st))"
proof -
  have "map (\<lambda>i. FanOut_task P (traced_fan a) (fst (collate list ! i)) (snd (collate list ! i))) sched =
      map (\<lambda>x. FanOut_task P (traced_fan a) (fst x) (snd x)) (map (\<lambda>i. collate list ! i) sched)"
    and "map (\<lambda>i. FanOut_task P a (fst (collate list ! i)) (snd (collate list ! i))) sched =
      map (\<lambda>x. FanOut_task P a (fst x) (snd x)) (map (\<lambda>i. collate list ! i) sched)"
    by simp_all
  then show ?thesis
    by (simp only: FanOut_run [OF assms] run_tasks_traced_fan_plain)
qed

text \<open>
  C2. When a provider name of the collection is not in the registry, under every
  schedule: the goroutine of that name returns the error \<open>unknown provider name: <name>\<close>
  without invoking the action, \<open>FanOut\<close> returns an error, and the action is still
  invoked exactly once for every name that is registered, with that name's whole
  sub-collection. The log apart, the run is the run of the action itself.
\<close>

theorem FanOut_unknown_provider:
  assumes "schedule (length (collate list)) sched"
    and "n0 \<in> Provider ` set list"
    and "map_of providers n0 = None"
  shows "(\<forall>vms sa. FanOut_task providers (traced_fan action) n0 vms sa =
            (Some (Errorf (''unknown provider name: '' @ n0)), sa))
     \<and> fst (FanOut providers list (traced_fan action) sched st) \<noteq> None
     \<and> fst (snd (FanOut providers list (traced_fan action) sched st)) =
         fst st @ List.map_filter (\<lambda>(n, vms). map_option (\<lambda>p. (p, vms)) (map_of providers n))
                    (map (\<lambda>i. collate list ! i) sched)
     \<and> (\<forall>n p. n \<in> Provider ` set list \<and> map_of providers n = Some p \<longrightarrow>
          count_list (fst (snd (FanOut providers list (traced_fan action) sched ([], s))))
            (p, filter (\<lambda>vm. Provider vm = n) list) = 1)
     \<and> fst (FanOut providers list (traced_fan action) sched st) =
         fst (FanOut providers list action sched (snd st))
     \<and> snd (snd (FanOut providers list (traced_fan action) sched st)) =
         snd (FanOut providers list action sched (snd st))"
proof (intro conjI allI impI)
  fix vms sa
  show "FanOut_task providers (traced_fan action) n0 vms sa =
      (Some (Errorf (''unknown provider name: '' @ n0)), sa)"
    using assms(3) by (simp add: FanOut_task_def)
next
  let ?fs = "map (\<lambda>i. FanOut_task providers (traced_fan action) (fst (collate list ! i))
      (snd (collate list ! i))) sched"
  from assms(2) have "n0 \<in> set (map fst (collate list))"
    by (simp only: collate_keys)
  then obtain i where i: "i < length (collate list)" and n0: "fst (collate list ! i) = n0"
    by (auto simp add: in_set_conv_nth)
  from i assms(1) have "i \<in> set sched"
    by (simp add: schedule_def)
  then have "FanOut_task providers (traced_fan action) (fst (collate list ! i)) (snd (collate list ! i))
      \<in> set ?fs"
    by simp
  moreover have "\<And>sa. fst (FanOut_task providers (traced_fan action) (fst (collate list ! i))
      (snd (collate list ! i)) sa) \<noteq> None"
    using assms(3) n0 by (simp add: FanOut_task_def)
  ultimately have "first_error (results ?fs st) \<noteq> None"
    by (rule first_error_results_fails)
  then show "fst (FanOut providers list (traced_fan action) sched st) \<noteq> None"
    by (simp add: FanOut_run [OF assms(1)] run_tasks_first_error)
next
  have m: "map (\<lambda>i. FanOut_task providers (traced_fan action) (fst (collate list ! i))
      (snd (collate list ! i))) sched =
      map (\<lambda>x. FanOut_task providers (traced_fan action) (fst x) (snd x)) (map (\<lambda>i. collate list ! i) sched)"
    by simp
  show "fst (snd (FanOut providers list (traced_fan action) sched st)) =
         fst st @ List.map_filter (\<lambda>(n, vms). map_option (\<lambda>p. (p, vms)) (map_of providers n))
                    (map (\<lambda>i. collate list ! i) sched)"
    by (simp only: FanOut_run [OF assms(1)] m run_tasks_traced_fan_log)
next
  fix n p
  assume a: "n \<in> Provider ` set list \<and> map_of providers n = Some p"
  let ?g = "\<lambda>(n, vms). map_option (\<lambda>p. (p, vms)) (map_of providers n)"
  let ?sub = "filter (\<lambda>vm. Provider vm = n) list"
  have m: "map (\<lambda>i. FanOut_task providers (traced_fan action) (fst (collate list ! i))
      (snd (collate list ! i))) sched =
      map (\<lambda>x. FanOut_task providers (traced_fan action) (fst x) (snd x)) (map (\<lambda>i. collate list ! i) sched)"
    by simp
  have log: "fst (snd (FanOut providers list (traced_fan action) sched ([], s))) =
      List.map_filter ?g (map (\<lambda>i. collate list ! i) sched)"
    by (simp only: FanOut_run [OF assms(1)] m run_tasks_traced_fan_log fst_conv append_Nil)
  from a have "map_of (collate list) n = Some ?sub"
    by (simp add: collate_map_of)
  then have mem: "(n, ?sub) \<in> set (collate list)"
    by (rule map_of_SomeD)
  have once: "count_list (List.map_filter ?g (collate list)) (p, ?sub) = 1"
  proof (rule count_list_map_filter_once [OF collate_distinct mem])
    show "map_of providers n = Some p" using a by simp
  next
    fix n' v'
    assume "(n', v') \<in> set (collate list)" "v' = ?sub"
    then show "n' = n" by (rule collate_same_group)
  qed
  have "count_list (List.map_filter ?g (map (\<lambda>i. collate list ! i) sched)) (p, ?sub) =
      count (mset (List.map_filter ?g (map (\<lambda>i. collate list ! i) sched))) (p, ?sub)"
    by (simp only: count_mset)
  also have "\<dots> = count (mset (List.map_filter ?g (collate list))) (p, ?sub)"
    by (simp only: mset_map_filter_schedule [OF assms(1)])
  also have "\<dots> = 1"
    by (simp only: count_mset once)
  finally show "count_list (fst (snd (FanOut providers list (traced_fan action) sched ([], s))))
      (p, ?sub) = 1"
    by (simp only: log)
next
  show "fst (FanOut providers list (traced_fan action) sched st) =
         fst (FanOut providers list action sched (snd st))"
    by (simp add: FanOut_traced_plain [OF assms(1)])
next
  show "snd (snd (FanOut providers list (traced_fan action) sched st)) =
         snd (FanOut providers list action sched (snd st))"
    by (simp add: FanOut_traced_plain [OF assms(1)])
qed

text \<open>
  The three VMs with only \<open>aws\<close> registered: the action still gets \<open>c-1\<close> and \<open>c-3\<close>.
\<close>

theorem FanOut_unknown_provider_witness:
  "schedule (length (collate three_vms)) [1, 0]
   \<and> ''gce'' \<in> Provider ` set three_vms
   \<and> map_of [(''aws'', ''AWS'')] ''gce'' = None
   \<and> fst (FanOut [(''aws'', ''AWS'')] three_vms (traced_fan note_names) [1, 0] ([], [])) \<noteq> None
   \<and> fst (snd (FanOut [(''aws'', ''AWS'')] three_vms (traced_fan note_names) [1, 0] ([], []))) =
        [(''AWS'', [mkVM ''c-1'' ''aws'' ''us-east-1a'', mkVM ''c-3'' ''aws'' ''us-east-1a''])]"
proof -
  have h: "schedule (length (collate three_vms)) [1, 0]"
    by (auto simp add: schedule_def collate_three_vms)
  have i: "''gce'' \<in> Provider ` set three_vms"
    by (simp add: three_vms_def mkVM_def)
  have m: "map_of [(''aws'', ''AWS'')] ''gce'' = None"
    by simp
  note t = FanOut_unknown_provider [OF h i m, where action = note_names and st = "([], [])"]
  from t [THEN conjunct2, THEN conjunct1]
  have e: "fst (FanOut [(''aws'', ''AWS'')] three_vms (traced_fan note_names) [1, 0] ([], [])) \<noteq> None" .
  from t [THEN conjunct2, THEN conjunct2, THEN conjunct1]
  have l: "fst (snd (FanOut [(''aws'', ''AWS'')] three_vms (traced_fan note_names) [1, 0] ([], []))) =
        [(''AWS'', [mkVM ''c-1'' ''aws'' ''us-east-1a'', mkVM ''c-3'' ''aws'' ''us-east-1a''])]"
    by (simp add: collate_three_vms)
  from h i m e l show ?thesis by (intro conjI)
qed

lemma update_fresh: "k \<notin> fst ` set al \<Longrightarrow> AList.update k v al = al @ [(k, v)]"
  by (induction al) auto

lemma fold_update_fresh:
  "distinct (map fst xs) \<Longrightarrow> fst ` set xs \<inter> fst ` set ys = {} \<Longrightarrow>
     fold (\<lambda>(k, v) m. AList.update k v m) xs ys = ys @ xs"
proof (induction xs arbitrary: ys)
  case Nil
  then show ?case by simp
next
  case (Cons x xs)
  obtain k v where x: "x = (k, v)" by (cases x)
  with Cons.prems have k: "k \<notin> fst ` set ys" and d: "distinct (map fst xs)"
    and "k \<notin> fst ` set xs" and "fst ` set xs \<inter> fst ` set ys = {}"
    by auto
  then have "fst ` set xs \<inter> fst ` set (ys @ [(k, v)]) = {}"
    by auto
  from Cons.IH [OF d this] x k show ?case
    by (simp add: update_fresh)
qed

lemma fold_map_store:
  "ret < length h \<Longrightarrow>
     fold (\<lambda>(k, v) h. map_store ret k v h) xs h =
       h[ret := fold (\<lambda>(k, v) m. AList.update k v m) xs (h ! ret)]"
proof (induction xs arbitrary: h)
  case Nil
  then show ?case by simp
next
  case (Cons x xs)
  obtain k v where x: "x = (k, v)" by (cases x)
  from Cons.prems have "ret < length (map_store ret k v h)"
    by (simp add: map_store_def)
  from Cons.IH [OF this] Cons.prems x show ?case
    by (simp add: map_store_def)
qed

lemma return_copy_eq:
  assumes "source < length (heap g)" "distinct (map fst (heap g ! source))"
  shows "return_copy source g =
           ((Some (length (heap g)), None), g\<lparr>heap := heap g @ [heap g ! source]\<rparr>)"
proof -
  have "fold (\<lambda>(k, v) h. map_store (length (heap g)) k v h) (heap g ! source) (heap g @ [[]]) =
      (heap g @ [[]])[length (heap g) := fold (\<lambda>(k, v) m. AList.update k v m) (heap g ! source)
          ((heap g @ [[]]) ! length (heap g))]"
    by (rule fold_map_store) simp
  also have "\<dots> = heap g @ [heap g ! source]"
    using fold_update_fresh [OF assms(2), of "[]"] by simp
  finally show ?thesis
    using assms(1) by (simp add: return_copy_def make_map_def nth_append)
qed

subsection \<open>The account cache\<close>

lemma AllProviderNames_fold:
  "fold (\<lambda>(name, p) ret. ret @ [name]) P acc = acc @ map fst P"
  by (induction P arbitrary: acc) (simp_all split: prod.splits)

lemma AllProviderNames_eq: "AllProviderNames P = map fst P"
  by (simp add: AllProviderNames_def AllProviderNames_fold)

lemma distinct_update_cell:
  assumes "\<forall>m\<in>set h. distinct (map fst m)" "a < length h"
  shows "\<forall>m\<in>set (map_store a k v h). distinct (map fst m)"
proof
  fix m
  assume "m \<in> set (map_store a k v h)"
  then have "m \<in> insert (AList.update k v (h ! a)) (set h)"
    using set_update_subset_insert [of h a] by (auto simp add: map_store_def)
  with assms show "distinct (map fst m)"
    by (auto simp add: AList.distinct_update)
qed

lemma account_action_inv:
  assumes "source < length h" "\<forall>m\<in>set h. distinct (map fst m)"
    and "account_action source p h = (e, h')"
  shows "length h' = length h \<and> (\<forall>m\<in>set h'. distinct (map fst m))"
proof (cases "e = None \<and> fst (FindActiveAccount p) \<noteq> []")
  case True
  with assms(3) have "h' = map_store source (Provider_Name p) (fst (FindActiveAccount p)) h"
    by (auto simp add: account_action_def split: prod.splits option.splits if_splits)
  with distinct_update_cell [OF assms(2,1)] show ?thesis
    by (simp add: map_store_def)
next
  case False
  with assms(3) have "h' = h"
    by (auto simp add: account_action_def split: prod.splits option.splits if_splits)
  with assms(2) show ?thesis by simp
qed

lemma ForProvider_inv:
  assumes "\<And>p s e s'. I s \<Longrightarrow> a p s = (e, s') \<Longrightarrow> I s'" "I s" "ForProvider P n a s = (e, s')"
  shows "I s'"
proof (cases "map_of P n")
  case None
  with assms(2,3) show ?thesis by (simp add: ForProvider_def)
next
  case (Some p)
  obtain e1 s1 where a: "a p s = (e1, s1)" by (cases "a p s")
  from assms(1) [OF assms(2) a] have "I s1" .
  with Some a assms(3) show ?thesis
    by (cases e1) (simp_all add: ForProvider_def)
qed

lemma ProvidersSequential_inv:
  assumes "\<And>p s e s'. I s \<Longrightarrow> a p s = (e, s') \<Longrightarrow> I s'"
  shows "I s \<Longrightarrow> ProvidersSequential P ns a s = (e, s') \<Longrightarrow> I s'"
proof (induction ns arbitrary: s)
  case Nil
  then show ?case by simp
next
  case (Cons n ns)
  obtain e1 s1 where f: "ForProvider P n a s = (e1, s1)" by (cases "ForProvider P n a s")
  from ForProvider_inv [of I a, OF assms Cons.prems(1) f] have i: "I s1" .
  show ?case
  proof (cases e1)
    case None
    with f Cons.prems(2) have "ProvidersSequential P ns a s1 = (e, s')" by simp
    from Cons.IH [OF i this] show ?thesis .
  next
    case (Some err)
    with f Cons.prems(2) i show ?thesis by simp
  qed
qed

lemma accounts_run_inv:
  assumes "source < length h" "\<forall>m\<in>set h. distinct (map fst m)"
    and "ProvidersSequential P ns (account_action source) h = (e, h')"
  shows "length h' = length h \<and> (\<forall>m\<in>set h'. distinct (map fst m))"
proof -
  let ?I = "\<lambda>x. length x = length h \<and> (\<forall>m\<in>set x. distinct (map fst m))"
  have step: "\<And>p s e s'. ?I s \<Longrightarrow> account_action source p s = (e, s') \<Longrightarrow> ?I s'"
  proof -
    fix p s e s'
    assume i: "?I s" and a: "account_action source p s = (e, s')"
    from i assms(1) have "source < length s" by simp
    from account_action_inv [OF this _ a] i show "?I s'" by simp
  qed
  have "?I h" using assms(2) by simp
  from ProvidersSequential_inv [of ?I "account_action source", OF step this assms(3)]
  show ?thesis .
qed

lemma wf_globals_cell:
  "wf_globals g \<Longrightarrow> a < length (heap g) \<Longrightarrow> distinct (map fst (heap g ! a))"
  by (simp add: wf_globals_def)

text \<open>
  C8. After a call of \<open>FindActiveAccounts\<close> that succeeds, whether or not a mapping was
  cached before it, the cache holds the address of a map; the map returned is another
  cell with the same entries. A later call, whatever the caller has since written into
  the map it was given and whatever the registry has become, does not query the
  providers: it returns a new cell, different from the cache and from the map returned
  before, with the entries of the cached map, and leaves the cache and every earlier
  cell as they were.
\<close>

theorem FindActiveAccounts_cached_copy:
  assumes "wf_globals g" and "FindActiveAccounts g = ((Some r, None), ga)"
  shows "\<exists>c. cachedActiveAccounts ga = Some c \<and> c < length (heap ga) \<and> r < length (heap ga)
           \<and> r \<noteq> c \<and> heap ga ! r = heap ga ! c \<and> wf_globals ga
           \<and> (\<forall>m ps. FindActiveAccounts (ga\<lparr>heap := (heap ga)[r := m], Providers := ps\<rparr>) =
                 ((Some (length (heap ga)), None),
                  ga\<lparr>heap := (heap ga)[r := m] @ [heap ga ! c], Providers := ps\<rparr>))"
proof -
  have first: "\<exists>c. cachedActiveAccounts ga = Some c \<and> c < length (heap ga) \<and> r < length (heap ga)
           \<and> r \<noteq> c \<and> heap ga ! r = heap ga ! c \<and> wf_globals ga"
  proof (cases "cachedActiveAccounts g")
    case (Some c)
    with assms(1) have c: "c < length (heap g)" by (simp add: wf_globals_def)
    from Some assms(2) have "return_copy c g = ((Some r, None), ga)"
      by (simp add: FindActiveAccounts_def)
    with return_copy_eq [OF c wf_globals_cell [OF assms(1) c]]
    have r: "r = length (heap g)" and ga: "ga = g\<lparr>heap := heap g @ [heap g ! c]\<rparr>"
      by simp_all
    from assms(1) c Some have "wf_globals (g\<lparr>heap := heap g @ [heap g ! c]\<rparr>)"
      by (auto simp add: wf_globals_def)
    with r ga c Some show ?thesis
      by (simp add: nth_append)
  next
    case None
    let ?src = "length (heap g)"
    let ?h1 = "heap g @ [[]]"
    obtain e h2 where run: "ProvidersSequential (Providers g) (AllProviderNames (Providers g))
        (account_action ?src) ?h1 = (e, h2)"
      by (cases "ProvidersSequential (Providers g) (AllProviderNames (Providers g))
        (account_action ?src) ?h1")
    from None run assms(2) have e: "e = None"
      by (cases e) (simp_all add: FindActiveAccounts_def make_map_def)
    from assms(1) have d1: "\<forall>m\<in>set ?h1. distinct (map fst m)"
      by (simp add: wf_globals_def)
    have "?src < length ?h1" by simp
    from accounts_run_inv [OF this d1 run]
    have len: "length h2 = Suc (length (heap g))" and d2: "\<forall>m\<in>set h2. distinct (map fst m)"
      by simp_all
    let ?g2 = "g\<lparr>heap := h2, cachedActiveAccounts := Some ?src\<rparr>"
    from None run e assms(2) have "return_copy ?src ?g2 = ((Some r, None), ga)"
      by (simp add: FindActiveAccounts_def make_map_def)
    moreover have "return_copy ?src ?g2 =
        ((Some (length (heap ?g2)), None), ?g2\<lparr>heap := heap ?g2 @ [heap ?g2 ! ?src]\<rparr>)"
      using len d2 by (intro return_copy_eq) simp_all
    ultimately have r: "r = length h2" and ga: "ga = ?g2\<lparr>heap := h2 @ [h2 ! ?src]\<rparr>"
      by simp_all
    from d2 len have "wf_globals (?g2\<lparr>heap := h2 @ [h2 ! ?src]\<rparr>)"
      by (auto simp add: wf_globals_def)
    with r ga len show ?thesis
      by (simp add: nth_append)
  qed
  then obtain c where c: "cachedActiveAccounts ga = Some c" "c < length (heap ga)"
    "r < length (heap ga)" "r \<noteq> c" "heap ga ! r = heap ga ! c" "wf_globals ga"
    by blast
  have second: "FindActiveAccounts (ga\<lparr>heap := (heap ga)[r := m], Providers := ps\<rparr>) =
                 ((Some (length (heap ga)), None),
                  ga\<lparr>heap := (heap ga)[r := m] @ [heap ga ! c], Providers := ps\<rparr>)" for m ps
  proof -
    let ?g = "ga\<lparr>heap := (heap ga)[r := m], Providers := ps\<rparr>"
    from c have cell: "heap ?g ! c = heap ga ! c" by simp
    from c have "c < length (heap ?g)" by simp
    moreover from wf_globals_cell [OF c(6) c(2)] cell have "distinct (map fst (heap ?g ! c))"
      by simp
    ultimately have "return_copy c ?g = ((Some (length (heap ?g)), None), ?g\<lparr>heap := heap ?g @ [heap ?g ! c]\<rparr>)"
      by (rule return_copy_eq)
    with c(1) cell show ?thesis
      by (simp add: FindActiveAccounts_def)
  qed
  from c second show ?thesis by blast
qed

text \<open>
  Two providers, one reporting the empty account. The caller overwrites the map of the
  first call; the second call still returns the cached entries, in a third cell.
\<close>

theorem FindActiveAccounts_cached_copy_witness:
  "wf_globals (start [(''aws'', reports ''aws'' ''alice''), (''gce'', reports ''gce'' '''')])
   \<and> FindActiveAccounts (start [(''aws'', reports ''aws'' ''alice''), (''gce'', reports ''gce'' '''')]) =
       ((Some 1, None),
        \<lparr>Providers = [(''aws'', reports ''aws'' ''alice''), (''gce'', reports ''gce'' '''')],
         cachedActiveAccounts = Some 0,
         heap = [[(''aws'', ''alice'')], [(''aws'', ''alice'')]]\<rparr>)
   \<and> FindActiveAccounts
         \<lparr>Providers = [], cachedActiveAccounts = Some 0,
          heap = [[(''aws'', ''alice'')], [(''aws'', ''mallory'')]]\<rparr> =
       ((Some 2, None),
        \<lparr>Providers = [], cachedActiveAccounts = Some 0,
         heap = [[(''aws'', ''alice'')], [(''aws'', ''mallory'')], [(''aws'', ''alice'')]]\<rparr>)"
proof -
  let ?g = "start [(''aws'', reports ''aws'' ''alice''), (''gce'', reports ''gce'' '''')]"
  let ?ga = "\<lparr>Providers = [(''aws'', reports ''aws'' ''alice''), (''gce'', reports ''gce'' '''')],
         cachedActiveAccounts = Some 0,
         heap = [[(''aws'', ''alice'')], [(''aws'', ''alice'')]]\<rparr>"
  have w: "wf_globals ?g"
    by (simp add: wf_globals_def start_def)
  have f: "FindActiveAccounts ?g = ((Some 1, None), ?ga)"
    by (simp add: FindActiveAccounts_def start_def make_map_def AllProviderNames_def
        ForProvider_def account_action_def reports_def map_store_def return_copy_def)
  from FindActiveAccounts_cached_copy [OF w f]
  have "FindActiveAccounts (?ga\<lparr>heap := (heap ?ga)[1 := [(''aws'', ''mallory'')]], Providers := []\<rparr>) =
                 ((Some (length (heap ?ga)), None),
                  ?ga\<lparr>heap := (heap ?ga)[1 := [(''aws'', ''mallory'')]] @ [heap ?ga ! 0], Providers := []\<rparr>)"
    by auto
  then have "FindActiveAccounts
         \<lparr>Providers = [], cachedActiveAccounts = Some 0,
          heap = [[(''aws'', ''alice'')], [(''aws'', ''mallory'')]]\<rparr> =
       ((Some 2, None),
        \<lparr>Providers = [], cachedActiveAccounts = Some 0,
         heap = [[(''aws'', ''alice'')], [(''aws'', ''mallory'')], [(''aws'', ''alice'')]]\<rparr>)"
    by simp
  with w f show ?thesis by blast
qed

lemma accounts_run:
  assumes "\<forall>(k, q)\<in>set qs. map_of P k = Some q \<and> snd (FindActiveAccount q) = None"
    and "source < length h"
  shows "ProvidersSequential P (map fst qs) (account_action source) h =
           (None, h[source := fold (\<lambda>(name, p) m.
                if fst (FindActiveAccount p) = [] then m
                else AList.update (Provider_Name p) (fst (FindActiveAccount p)) m) qs (h ! source)])"
  using assms
proof (induction qs arbitrary: h)
  case Nil
  then show ?case by simp
next
  case (Cons x qs)
  obtain k q where x: "x = (k, q)" by (cases x)
  with Cons.prems(1) have look: "map_of P k = Some q" and ok: "snd (FindActiveAccount q) = None"
    and rest: "\<forall>(k, q)\<in>set qs. map_of P k = Some q \<and> snd (FindActiveAccount q) = None"
    by simp_all
  obtain acct where fa: "FindActiveAccount q = (acct, None)"
    using ok by (cases "FindActiveAccount q") simp
  let ?h1 = "if acct = [] then h else map_store source (Provider_Name q) acct h"
  have step: "ForProvider P k (account_action source) h = (None, ?h1)"
    using look fa by (simp add: ForProvider_def account_action_def)
  from Cons.prems(2) have len: "source < length ?h1"
    by (simp add: map_store_def)
  from Cons.IH [OF rest len] step x fa Cons.prems(2) show ?case
    by (simp add: map_store_def)
qed

lemma accounts_of_distinct: "distinct (map fst (accounts_of ps))"
proof -
  have "distinct (map fst m0) \<Longrightarrow> distinct (map fst (fold (\<lambda>(name, p) m.
             if fst (FindActiveAccount p) = [] then m
             else AList.update (Provider_Name p) (fst (FindActiveAccount p)) m) ps m0))" for m0
    by (induction ps arbitrary: m0) (auto simp add: AList.distinct_update)
  then show ?thesis by (simp add: accounts_of_def)
qed

lemma accounts_fail:
  assumes "distinct (map fst P)" "P = pre @ (n, p) # post"
    and "\<forall>(k, q)\<in>set pre. snd (FindActiveAccount q) = None"
    and "snd (FindActiveAccount p) = Some err"
    and "source < length h"
  shows "\<exists>h'. ProvidersSequential P (AllProviderNames P) (account_action source) h =
           (Some (Wrapf err (''in provider: '' @ n)), h')"
proof -
  have pre: "\<forall>(k, q)\<in>set pre. map_of P k = Some q \<and> snd (FindActiveAccount q) = None"
  proof (clarify, intro conjI)
    fix k q
    assume m: "(k, q) \<in> set pre"
    with assms(2) have "(k, q) \<in> set P" by simp
    with assms(1) show "map_of P k = Some q" by simp
    from m assms(3) show "snd (FindActiveAccount q) = None" by auto
  qed
  let ?h1 = "h[source := fold (\<lambda>(name, p) m.
                if fst (FindActiveAccount p) = [] then m
                else AList.update (Provider_Name p) (fst (FindActiveAccount p)) m) pre (h ! source)]"
  from accounts_run [OF pre assms(5)]
  have run: "ProvidersSequential P (map fst pre) (account_action source) h = (None, ?h1)" .
  from assms(2) have "(n, p) \<in> set P" by simp
  with assms(1) have "map_of P n = Some p" by simp
  moreover obtain acct where "FindActiveAccount p = (acct, Some err)"
    using assms(4) by (cases "FindActiveAccount p") simp
  ultimately have "ForProvider P n (account_action source) ?h1 =
      (Some (Wrapf err (''in provider: '' @ n)), ?h1)"
    by (simp add: ForProvider_def account_action_def)
  then have "ProvidersSequential P (n # map fst post) (account_action source) ?h1 =
      (Some (Wrapf err (''in provider: '' @ n)), ?h1)"
    by simp
  with run have "ProvidersSequential P (map fst pre @ n # map fst post) (account_action source) h =
      (Some (Wrapf err (''in provider: '' @ n)), ?h1)"
    by (simp add: ProvidersSequential_append)
  with assms(2) show ?thesis
    by (simp add: AllProviderNames_eq)
qed

text \<open>
  C9, as amended. In a call with no mapping cached, when the providers visited before
  some provider report no error and that provider's \<open>FindActiveAccount\<close> returns an error,
  \<open>FindActiveAccounts\<close> returns the \<open>nil\<close> map and that error wrapped with
  \<open>in provider: <name>\<close>; only the heap has changed and the cache is still unset. A
  call that follows queries the providers again: with the same registry it fails in the
  same way, and with a registry whose providers all succeed it returns a copy of the
  accounts they report and caches them.
\<close>

theorem FindActiveAccounts_error:
  assumes "cachedActiveAccounts g = None"
    and "distinct (map fst (Providers g))"
    and "Providers g = pre @ (n, p) # post"
    and "\<forall>(k, q)\<in>set pre. snd (FindActiveAccount q) = None"
    and "snd (FindActiveAccount p) = Some err"
  shows "\<exists>h. FindActiveAccounts g = ((None, Some (Wrapf err (''in provider: '' @ n))), g\<lparr>heap := h\<rparr>)
           \<and> cachedActiveAccounts (g\<lparr>heap := h\<rparr>) = None
           \<and> (\<exists>h'. FindActiveAccounts (g\<lparr>heap := h\<rparr>) =
                 ((None, Some (Wrapf err (''in provider: '' @ n))), g\<lparr>heap := h'\<rparr>))
           \<and> (\<forall>ps. distinct (map fst ps) \<and> (\<forall>(k, q)\<in>set ps. snd (FindActiveAccount q) = None) \<longrightarrow>
                 FindActiveAccounts (g\<lparr>heap := h, Providers := ps\<rparr>) =
                   ((Some (Suc (length h)), None),
                    g\<lparr>heap := h @ [accounts_of ps, accounts_of ps], Providers := ps,
                      cachedActiveAccounts := Some (length h)\<rparr>))"
proof -
  have fail: "\<exists>h'. FindActiveAccounts (g\<lparr>heap := h0\<rparr>) =
      ((None, Some (Wrapf err (''in provider: '' @ n))), g\<lparr>heap := h'\<rparr>)" for h0
  proof -
    have "length h0 < length (h0 @ [[]])" by simp
    from accounts_fail [OF assms(2,3,4,5) this]
    obtain h' where "ProvidersSequential (Providers g) (AllProviderNames (Providers g))
        (account_action (length h0)) (h0 @ [[]]) = (Some (Wrapf err (''in provider: '' @ n)), h')"
      by blast
    with assms(1) have "FindActiveAccounts (g\<lparr>heap := h0\<rparr>) =
      ((None, Some (Wrapf err (''in provider: '' @ n))), g\<lparr>heap := h'\<rparr>)"
      by (simp add: FindActiveAccounts_def make_map_def)
    then show ?thesis by blast
  qed
  from fail [of "heap g"] obtain h where h: "FindActiveAccounts g =
      ((None, Some (Wrapf err (''in provider: '' @ n))), g\<lparr>heap := h\<rparr>)"
    by auto
  have retry: "FindActiveAccounts (g\<lparr>heap := h, Providers := ps\<rparr>) =
                   ((Some (Suc (length h)), None),
                    g\<lparr>heap := h @ [accounts_of ps, accounts_of ps], Providers := ps,
                      cachedActiveAccounts := Some (length h)\<rparr>)"
    if ps: "distinct (map fst ps) \<and> (\<forall>(k, q)\<in>set ps. snd (FindActiveAccount q) = None)" for ps
  proof -
    from ps have all: "\<forall>(k, q)\<in>set ps. map_of ps k = Some q \<and> snd (FindActiveAccount q) = None"
      by auto
    have "length h < length (h @ [[]])" by simp
    from accounts_run [OF all this]
    have run: "ProvidersSequential ps (AllProviderNames ps) (account_action (length h)) (h @ [[]]) =
        (None, h @ [accounts_of ps])"
      by (simp add: AllProviderNames_eq accounts_of_def)
    from run assms(1) show ?thesis
      by (simp add: FindActiveAccounts_def make_map_def return_copy_eq accounts_of_distinct)
  qed
  from h fail [of h] retry assms(1) show ?thesis
    by (intro exI [of _ h]) simp
qed

text \<open>
  The second provider fails on the first call; on the next call the registry holds one
  provider that succeeds.
\<close>

theorem FindActiveAccounts_error_witness:
  "FindActiveAccounts (start [(''aws'', reports ''aws'' ''alice''),
                              (''gce'', failing ''gce'' (Errorf ''no credentials''))]) =
     ((None, Some (Wrapf (Errorf ''no credentials'') ''in provider: gce'')),
      \<lparr>Providers = [(''aws'', reports ''aws'' ''alice''),
                    (''gce'', failing ''gce'' (Errorf ''no credentials''))],
       cachedActiveAccounts = None, heap = [[(''aws'', ''alice'')]]\<rparr>)
   \<and> FindActiveAccounts
        \<lparr>Providers = [(''gce'', reports ''gce'' ''bob'')],
         cachedActiveAccounts = None, heap = [[(''aws'', ''alice'')]]\<rparr> =
     ((Some 2, None),
      \<lparr>Providers = [(''gce'', reports ''gce'' ''bob'')],
       cachedActiveAccounts = Some 1,
       heap = [[(''aws'', ''alice'')], [(''gce'', ''bob'')], [(''gce'', ''bob'')]]\<rparr>)"
proof -
  let ?ps = "[(''aws'', reports ''aws'' ''alice''), (''gce'', failing ''gce'' (Errorf ''no credentials''))]"
  have f: "FindActiveAccounts (start ?ps) =
     ((None, Some (Wrapf (Errorf ''no credentials'') ''in provider: gce'')),
      \<lparr>Providers = ?ps, cachedActiveAccounts = None, heap = [[(''aws'', ''alice'')]]\<rparr>)"
    by (simp add: FindActiveAccounts_def start_def make_map_def AllProviderNames_def
        ForProvider_def account_action_def reports_def failing_def map_store_def)
  have "\<exists>h. FindActiveAccounts (start ?ps) =
            ((None, Some (Wrapf (Errorf ''no credentials'') (''in provider: '' @ ''gce''))),
             (start ?ps)\<lparr>heap := h\<rparr>)
           \<and> cachedActiveAccounts ((start ?ps)\<lparr>heap := h\<rparr>) = None
           \<and> (\<exists>h'. FindActiveAccounts ((start ?ps)\<lparr>heap := h\<rparr>) =
                 ((None, Some (Wrapf (Errorf ''no credentials'') (''in provider: '' @ ''gce''))),
                  (start ?ps)\<lparr>heap := h'\<rparr>))
           \<and> (\<forall>ps. distinct (map fst ps) \<and> (\<forall>(k, q)\<in>set ps. snd (FindActiveAccount q) = None) \<longrightarrow>
                 FindActiveAccounts ((start ?ps)\<lparr>heap := h, Providers := ps\<rparr>) =
                   ((Some (Suc (length h)), None),
                    (start ?ps)\<lparr>heap := h @ [accounts_of ps, accounts_of ps], Providers := ps,
                      cachedActiveAccounts := Some (length h)\<rparr>))"
    by (rule FindActiveAccounts_error [where pre = "[(''aws'', reports ''aws'' ''alice'')]" and post = "[]"
          and p = "failing ''gce'' (Errorf ''no credentials'')"])
      (simp_all add: start_def reports_def failing_def)
  then obtain h where h: "FindActiveAccounts (start ?ps) =
            ((None, Some (Wrapf (Errorf ''no credentials'') (''in provider: '' @ ''gce''))),
             (start ?ps)\<lparr>heap := h\<rparr>)"
    and r: "\<forall>ps. distinct (map fst ps) \<and> (\<forall>(k, q)\<in>set ps. snd (FindActiveAccount q) = None) \<longrightarrow>
                 FindActiveAccounts ((start ?ps)\<lparr>heap := h, Providers := ps\<rparr>) =
                   ((Some (Suc (length h)), None),
                    (start ?ps)\<lparr>heap := h @ [accounts_of ps, accounts_of ps], Providers := ps,
                      cachedActiveAccounts := Some (length h)\<rparr>)"
    by blast
  from h f have hh: "h = [[(''aws'', ''alice'')]]"
    by (simp add: start_def)
  from r [rule_format, of "[(''gce'', reports ''gce'' ''bob'')]"]
  have "FindActiveAccounts
        \<lparr>Providers = [(''gce'', reports ''gce'' ''bob'')],
         cachedActiveAccounts = None, heap = [[(''aws'', ''alice'')]]\<rparr> =
     ((Some 2, None),
      \<lparr>Providers = [(''gce'', reports ''gce'' ''bob'')],
       cachedActiveAccounts = Some 1,
       heap = [[(''aws'', ''alice'')], [(''gce'', ''bob'')], [(''gce'', ''bob'')]]\<rparr>)"
    by (simp add: hh start_def reports_def accounts_of_def)
  with f show ?thesis by blast
qed

text \<open>
  C9 as stated fails: the error returned is not the provider's error itself but that
  error wrapped by \<open>ForProvider\<close>.
\<close>

theorem FindActiveAccounts_error_counterexample:
  "fst (FindActiveAccounts (start [(''aws'', failing ''aws'' (Errorf ''no credentials''))])) =
     (None, Some (Wrapf (Errorf ''no credentials'') ''in provider: aws''))
   \<and> fst (FindActiveAccounts (start [(''aws'', failing ''aws'' (Errorf ''no credentials''))])) \<noteq>
     (None, Some (Errorf ''no credentials''))"
  by (simp add: FindActiveAccounts_def start_def make_map_def AllProviderNames_def
      ForProvider_def account_action_def failing_def)

end
